theory Spec2Isabelle
  imports Complex_Main "HOL-Library.AList" "HOL-Library.Multiset"
begin

section \<open>JavaScript primitives used by the pipeline\<close>

text \<open>
  Numbers that index arrays are modelled as \<open>int\<close>: the loops of the source add a
  chunk size to an index, and nothing restricts that size to positive values.
  \<open>Array.prototype.slice(start, end)\<close> clamps both bounds: a negative bound counts
  from the end of the array, a bound beyond the length is the length, and an end before
  the start gives the empty array.
\<close>

definition js_slice :: "'a list \<Rightarrow> int \<Rightarrow> int \<Rightarrow> 'a list" where
  "js_slice xs start fin =
     (let len = int (length xs);
          k = (if start < 0 then max (len + start) 0 else min start len);
          final = (if fin < 0 then max (len + fin) 0 else min fin len)
      in take (nat (final - k)) (drop (nat k) xs))"

text \<open>Truthiness of a string that may be \<open>undefined\<close>: only a non-empty string is truthy.\<close>

fun truthy :: "string option \<Rightarrow> bool" where
  "truthy None = False"
| "truthy (Some s) = (s \<noteq> [])"

text \<open>\<open>x || d\<close> for an optional string \<open>x\<close> and a default string \<open>d\<close>.\<close>

fun or_default :: "string option \<Rightarrow> string \<Rightarrow> string" where
  "or_default None d = d"
| "or_default (Some s) d = (if s = [] then d else s)"

section \<open>Batch Uploader (VapiClient)\<close>

record ValidatedLead =
  name :: string
  number :: string
  email :: "string option"

record BatchResult =
  batchNumber :: nat
  batchSuccess :: bool
  leadsProcessed :: nat
  batchError :: "string option"

record CampaignDetails =
  totalLeads :: nat
  batches :: "BatchResult list"

record CampaignCreateResponse =
  success :: bool
  campaignId :: "string option"
  error :: "string option"
  details :: "CampaignDetails option"

text \<open>
  The remote API is outside the repository. A value thrown by \<open>fetch\<close> or by reading
  a response body is either an \<open>Error\<close> with a message or some other value. A response
  has the \<open>ok\<close> flag and a body; reading the body either throws (malformed JSON, or a
  property access on \<open>null\<close>) or gives the \<open>id\<close> and \<open>message\<close> properties, each
  possibly absent.
\<close>

datatype thrown = ErrorObject string | NotAnError

datatype body = BodyFails thrown | BodyJson "string option" "string option"

datatype fetch_outcome = FetchThrows thrown | Response bool body

text \<open>
  The server is a schedule of outcomes: \<open>srv k\<close> is what the \<open>k\<close>-th request issued by
  one call of \<open>createCampaign\<close> gives (request 0 creates the campaign, request \<open>i\<close>
  appends batch \<open>i\<close>). Every behaviour of a real server on one run is such a schedule.
\<close>

type_synonym server = "nat \<Rightarrow> fetch_outcome"

record campaignBody =
  cb_name :: string
  customers :: "ValidatedLead list option"
  cb_assistantId :: "string option"
  cb_workflowId :: "string option"
  cb_phoneNumberId :: "string option"

datatype request_body = CampaignBody campaignBody | CustomersBody "ValidatedLead list"

record request =
  endpoint :: string
  payload :: request_body

text \<open>
  What a call leaves behind besides its return value: the requests handed to
  \<open>sendRequest\<close> and the calls of the \<open>onProgress\<close> callback, both in order. The
  two-second \<open>delay\<close> between batches is real time and is not part of the model.
\<close>

record upload_log =
  batchResults :: "BatchResult list"
  sent :: "request list"
  progressCalls :: "(nat \<times> nat) list"

text \<open>
  \<open>createBatches\<close>: \<open>for (let i = 0; i < array.length; i += batchSize)
  batches.push(array.slice(i, i + batchSize))\<close>. The loop does not end when
  \<open>batchSize \<le> 0\<close> and the array is not empty; not returning is the value \<open>None\<close>.
\<close>

partial_function (option) createBatches_loop ::
  "'a list \<Rightarrow> int \<Rightarrow> int \<Rightarrow> 'a list list \<Rightarrow> 'a list list option" where
  "createBatches_loop array batchSize i acc =
     (if i < int (length array)
      then createBatches_loop array batchSize (i + batchSize)
             (acc @ [js_slice array i (i + batchSize)])
      else Some acc)"

declare createBatches_loop.simps [code]

definition createBatches :: "'a list \<Rightarrow> int \<Rightarrow> 'a list list option" where
  "createBatches array batchSize = createBatches_loop array batchSize 0 []"

text \<open>The \<open>catch\<close> block: \<open>error instanceof Error ? error.message : 'Unknown error occurred'\<close>.\<close>

fun catch_message :: "thrown \<Rightarrow> string" where
  "catch_message (ErrorObject m) = m"
| "catch_message NotAnError = ''Unknown error occurred''"

definition failure :: "string \<Rightarrow> CampaignCreateResponse" where
  "failure msg = \<lparr>success = False, campaignId = None, error = Some msg, details = None\<rparr>"

text \<open>The template string \<open>`campaign/${campaignId}/customers`\<close>.\<close>

definition customers_endpoint :: "string option \<Rightarrow> string" where
  "customers_endpoint cid =
     ''campaign/'' @ (case cid of None \<Rightarrow> ''undefined'' | Some s \<Rightarrow> s) @ ''/customers''"

text \<open>
  The loop over the remaining batches, \<open>for (let i = 1; i < batches.length; i++)\<close>.
  A request that throws leaves the loop for the \<open>catch\<close> block; the thrown value is
  returned beside the log.
\<close>

function appendBatches ::
  "server \<Rightarrow> string option \<Rightarrow> bool \<Rightarrow> ValidatedLead list list \<Rightarrow> nat \<Rightarrow> upload_log
     \<Rightarrow> thrown option \<times> upload_log" where
  "appendBatches srv cid hasOnProgress bs i lg =
     (if i < length bs then
        (let lg1 = (if hasOnProgress
                    then lg\<lparr>progressCalls := progressCalls lg @ [(i + 1, length bs)]\<rparr>
                    else lg);
             lg2 = lg1\<lparr>sent := sent lg1 @
                     [\<lparr>endpoint = customers_endpoint cid, payload = CustomersBody (bs ! i)\<rparr>]\<rparr>
         in case srv i of
              FetchThrows e \<Rightarrow> (Some e, lg2)
            | Response ok b \<Rightarrow>
                appendBatches srv cid hasOnProgress bs (i + 1)
                  (lg2\<lparr>batchResults := batchResults lg2 @
                     [\<lparr>batchNumber = i + 1, batchSuccess = ok,
                       leadsProcessed = length (bs ! i),
                       batchError = (if \<not> ok then Some ''Failed to add batch'' else None)\<rparr>]\<rparr>))
      else (None, lg))"
  by pat_completeness auto
termination
  by (relation "measure (\<lambda>(srv, cid, hasOnProgress, bs, i, lg). length bs - i)") auto

declare appendBatches.simps [simp del]

text \<open>
  \<open>createCampaign\<close>. The optional callback is modelled by whether it was passed. The
  result is \<open>None\<close> only if \<open>createBatches\<close> does not return.
\<close>

definition createCampaign ::
  "server \<Rightarrow> string \<Rightarrow> ValidatedLead list \<Rightarrow> string option \<Rightarrow> string option \<Rightarrow> string option
     \<Rightarrow> bool \<Rightarrow> (CampaignCreateResponse \<times> upload_log) option" where
  "createCampaign srv campaignName leads assistantId workflowId phoneNumberId hasOnProgress =
     (case createBatches leads 1000 of
        None \<Rightarrow> None
      | Some bs \<Rightarrow>
          Some
            (let cbody = \<lparr>cb_name = campaignName,
                          customers = (case bs of [] \<Rightarrow> None | b # _ \<Rightarrow> Some b),
                          cb_assistantId = (if truthy assistantId then assistantId else None),
                          cb_workflowId =
                            (if \<not> truthy assistantId \<and> truthy workflowId then workflowId else None),
                          cb_phoneNumberId = (if truthy phoneNumberId then phoneNumberId else None)\<rparr>;
                 lg0 = \<lparr>batchResults = [],
                        sent = [\<lparr>endpoint = ''campaign'', payload = CampaignBody cbody\<rparr>],
                        progressCalls = []\<rparr>
             in case srv 0 of
                  FetchThrows e \<Rightarrow> (failure (catch_message e), lg0)
                | Response ok b \<Rightarrow>
                    if \<not> ok then
                      (case b of
                         BodyFails e \<Rightarrow> (failure (catch_message e), lg0)
                       | BodyJson _ msg \<Rightarrow>
                           (failure (or_default msg ''Failed to create campaign''), lg0))
                    else
                      (case b of
                         BodyFails e \<Rightarrow> (failure (catch_message e), lg0)
                       | BodyJson cid _ \<Rightarrow>
                           (case appendBatches srv cid hasOnProgress bs 1 lg0 of
                              (Some e, lg) \<Rightarrow> (failure (catch_message e), lg)
                            | (None, lg) \<Rightarrow>
                                (\<lparr>success = True, campaignId = cid, error = None,
                                  details = Some \<lparr>totalLeads = length leads,
                                                  batches = batchResults lg\<rparr>\<rparr>, lg)))))"


text \<open>The \<open>ok\<close> flag of an outcome; a request that throws has none and counts as not ok.\<close>

fun resp_ok :: "fetch_outcome \<Rightarrow> bool" where
  "resp_ok (Response ok b) = ok"
| "resp_ok (FetchThrows e) = False"

text \<open>The Batch Result that the loop pushes for batch \<open>k\<close> once request \<open>k\<close> has answered.\<close>

definition batchResultOf :: "server \<Rightarrow> ValidatedLead list list \<Rightarrow> nat \<Rightarrow> BatchResult" where
  "batchResultOf srv bs k =
     \<lparr>batchNumber = k + 1, batchSuccess = resp_ok (srv k), leadsProcessed = length (bs ! k),
      batchError = (if resp_ok (srv k) then None else Some ''Failed to add batch'')\<rparr>"

text \<open>
  A schedule for concrete runs: the campaign is created, the request for batch 2 answers
  with a non-success status, and every later request fails in \<open>fetch\<close> itself.
\<close>

definition failing_network :: server where
  "failing_network k =
     (if k = 0 then Response True (BodyJson (Some ''camp_1'') None)
      else if k = 1 then Response False (BodyJson None (Some ''rate limited''))
      else FetchThrows (ErrorObject ''Failed to fetch''))"

section \<open>Phone Normalizer and Record Validator\<close>

text \<open>
  Strings are lists of 8-bit characters, read as code units below 256. Of the characters
  that \<open>String.prototype.trim\<close> and the regular-expression class \<open>\s\<close> treat as white
  space, these are the ones in that range: tab, line feed, vertical tab, form feed,
  carriage return, space and no-break space.
\<close>

definition is_space :: "char \<Rightarrow> bool" where
  "is_space c = (c \<in> set [CHR 0x09, CHR 0x0A, CHR 0x0B, CHR 0x0C, CHR 0x0D, CHR 0x20, CHR 0xA0])"

definition js_trim :: "string \<Rightarrow> string" where
  "js_trim s = rev (dropWhile is_space (rev (dropWhile is_space s)))"

text \<open>
  \<open>parsePhoneNumber(text, 'US')\<close> belongs to the library libphonenumber-js, which is not
  part of the repository; it is a parameter of the model. It throws, returns
  \<open>undefined\<close>, or returns a number object, of which the code reads \<open>isValid()\<close> and
  \<open>format('E.164')\<close>.
\<close>

datatype parse_outcome = ParseThrows thrown | ParseUndefined | Parsed bool string

type_synonym phone_parser = "string \<Rightarrow> parse_outcome"

record PhoneFormatResult =
  isValid :: bool
  formatted :: "string option"
  phoneError :: "string option"

definition formatPhoneNumber :: "phone_parser \<Rightarrow> string \<Rightarrow> PhoneFormatResult" where
  "formatPhoneNumber parsePhoneNumber phone =
     (if phone = [] then
        \<lparr>isValid = False, formatted = None, phoneError = Some ''Phone number is required''\<rparr>
      else
        (case parsePhoneNumber (js_trim phone) of
           ParseUndefined \<Rightarrow>
             \<lparr>isValid = False, formatted = None,
              phoneError = Some ''Unable to parse phone number''\<rparr>
         | Parsed ok e164 \<Rightarrow>
             if \<not> ok then
               \<lparr>isValid = False, formatted = None,
                phoneError = Some ''Invalid phone number format''\<rparr>
             else \<lparr>isValid = True, formatted = Some e164, phoneError = None\<rparr>
         | ParseThrows (ErrorObject m) \<Rightarrow>
             \<lparr>isValid = False, formatted = None, phoneError = Some m\<rparr>
         | ParseThrows NotAnError \<Rightarrow>
             \<lparr>isValid = False, formatted = None,
              phoneError = Some ''Failed to parse phone number''\<rparr>))"

text \<open>
  \<open>isValidEmail\<close> tests the regular expression \<open>/^[^\s@]+@[^\s@]+\.[^\s@]+$/\<close>. The
  three functions below are that expression read from the left: each consumes one or more
  characters of the class \<open>[^\s@]\<close> (the flag says whether one has been consumed) and
  may then go on with the literal that follows. A dot belongs to the class, so after a dot
  in the domain both continuations are tried.
\<close>

definition email_char :: "char \<Rightarrow> bool" where
  "email_char c = (\<not> is_space c \<and> c \<noteq> CHR ''@'')"

definition match_tld :: "string \<Rightarrow> bool" where
  "match_tld s = (s \<noteq> [] \<and> list_all email_char s)"

fun match_domain :: "bool \<Rightarrow> string \<Rightarrow> bool" where
  "match_domain consumed [] = False"
| "match_domain consumed (c # cs) =
     ((consumed \<and> c = CHR ''.'' \<and> match_tld cs) \<or> (email_char c \<and> match_domain True cs))"

fun match_local :: "bool \<Rightarrow> string \<Rightarrow> bool" where
  "match_local consumed [] = False"
| "match_local consumed (c # cs) =
     ((consumed \<and> c = CHR ''@'' \<and> match_domain False cs) \<or> (email_char c \<and> match_local True cs))"

definition isValidEmail :: "string \<Rightarrow> bool" where
  "isValidEmail addr = match_local False addr"

text \<open>\<open>replace(/\s+/g, ' ')\<close>: every maximal run of white space becomes one space.\<close>

function collapse_spaces :: "string \<Rightarrow> string" where
  "collapse_spaces [] = []"
| "collapse_spaces (c # cs) =
     (if is_space c then CHR 0x20 # collapse_spaces (dropWhile is_space cs)
      else c # collapse_spaces cs)"
  by pat_completeness auto
termination
  by (relation "measure length") (auto simp: length_dropWhile_le less_Suc_eq_le)

definition cleanText :: "string \<Rightarrow> string" where
  "cleanText text =
     (if text = [] then []
      else filter (\<lambda>c. c \<notin> set [CHR ''<'', CHR ''>'', CHR 0x22])
             (collapse_spaces (js_trim text)))"

text \<open>
  The rows handed to the validator (fields \<open>rowIndex\<close>, \<open>phone\<close>, \<open>name\<close>, \<open>email\<close>,
  \<open>originalData\<close> of the source, here with the prefix \<open>row_\<close>), and the records of
  the invalid list (\<open>rowIndex\<close>, \<open>data\<close>, \<open>errors\<close>).
\<close>

record 'a ExtractedRow =
  row_rowIndex :: nat
  row_phone :: string
  row_name :: string
  row_email :: string
  row_originalData :: 'a

record 'a InvalidRow =
  rowIndex :: nat
  data :: 'a
  errors :: "string list"

record Summary =
  totalRows :: nat
  validRows :: nat
  invalidRows :: nat
  duplicateRows :: nat

record 'a ValidationResult =
  valid :: "ValidatedLead list"
  invalid :: "'a InvalidRow list"
  duplicates :: nat
  summary :: Summary

text \<open>The local variables of \<open>validateAndCleanData\<close> that the \<open>forEach\<close> callback updates.\<close>

record 'a validation_state =
  valid_acc :: "ValidatedLead list"
  invalid_acc :: "'a InvalidRow list"
  seenPhones :: "string set"
  duplicates_acc :: nat

text \<open>
  The \<open>errors\<close> array of one row, in the order of the three checks. The duplicate check
  reads the set of phones seen so far.
\<close>

definition isDuplicate :: "PhoneFormatResult \<Rightarrow> string set \<Rightarrow> bool" where
  "isDuplicate phoneResult seen =
     (case formatted phoneResult of None \<Rightarrow> False | Some f \<Rightarrow> f \<noteq> [] \<and> f \<in> seen)"

definition badEmail :: "'a ExtractedRow \<Rightarrow> bool" where
  "badEmail row = (js_trim (row_email row) \<noteq> [] \<and> \<not> isValidEmail (js_trim (row_email row)))"

definition rowErrors :: "phone_parser \<Rightarrow> string set \<Rightarrow> 'a ExtractedRow \<Rightarrow> string list" where
  "rowErrors parsePhoneNumber seen row =
     (let phoneResult = formatPhoneNumber parsePhoneNumber (row_phone row)
      in (if \<not> isValid phoneResult \<or> \<not> truthy (formatted phoneResult)
          then [''Invalid phone: '' @ or_default (phoneError phoneResult) ''Unknown error'']
          else [])
         @ (if isDuplicate phoneResult seen then [''Duplicate phone number''] else [])
         @ (if badEmail row then [''Invalid email format''] else []))"

text \<open>One call of the \<open>forEach\<close> callback.\<close>

definition validateRow ::
  "phone_parser \<Rightarrow> 'a validation_state \<Rightarrow> 'a ExtractedRow \<Rightarrow> 'a validation_state" where
  "validateRow parsePhoneNumber st row =
     (let phoneResult = formatPhoneNumber parsePhoneNumber (row_phone row);
          errs = rowErrors parsePhoneNumber (seenPhones st) row;
          st1 = (if isDuplicate phoneResult (seenPhones st)
                 then st\<lparr>duplicates_acc := duplicates_acc st + 1\<rparr> else st);
          cleanEmail = (if badEmail row then [] else js_trim (row_email row));
          cleanName = cleanText (row_name row)
      in if errs \<noteq> [] then
           st1\<lparr>invalid_acc := invalid_acc st1 @
                 [\<lparr>rowIndex = row_rowIndex row, data = row_originalData row, errors = errs\<rparr>]\<rparr>
         else
           (case formatted phoneResult of
              Some f \<Rightarrow>
                if f \<noteq> [] then
                  st1\<lparr>seenPhones := insert f (seenPhones st1),
                      valid_acc := valid_acc st1 @
                        [\<lparr>name = cleanName, number = f,
                          email = (if cleanEmail \<noteq> [] then Some cleanEmail else None)\<rparr>]\<rparr>
                else st1
            | None \<Rightarrow> st1))"

definition validateRows :: "phone_parser \<Rightarrow> 'a ExtractedRow list \<Rightarrow> 'a validation_state" where
  "validateRows parsePhoneNumber rows =
     foldl (validateRow parsePhoneNumber)
       \<lparr>valid_acc = [], invalid_acc = [], seenPhones = {}, duplicates_acc = 0\<rparr> rows"

definition validateAndCleanData ::
  "phone_parser \<Rightarrow> 'a ExtractedRow list \<Rightarrow> 'a ValidationResult" where
  "validateAndCleanData parsePhoneNumber rows =
     (let st = validateRows parsePhoneNumber rows
      in \<lparr>valid = valid_acc st, invalid = invalid_acc st, duplicates = duplicates_acc st,
          summary = \<lparr>totalRows = length rows, validRows = length (valid_acc st),
                     invalidRows = length (invalid_acc st),
                     duplicateRows = duplicates_acc st\<rparr>\<rparr>)"

text \<open>
  Vocabulary for the statements about rows: the canonical phone of a row (the E.164 text,
  when the phone check passes), and the Validated Lead that the row gives when it has no
  error.
\<close>

definition canonicalPhone :: "phone_parser \<Rightarrow> 'a ExtractedRow \<Rightarrow> string option" where
  "canonicalPhone parsePhoneNumber row =
     (let phoneResult = formatPhoneNumber parsePhoneNumber (row_phone row)
      in if isValid phoneResult \<and> truthy (formatted phoneResult)
         then formatted phoneResult else None)"

definition leadOf :: "phone_parser \<Rightarrow> 'a ExtractedRow \<Rightarrow> ValidatedLead" where
  "leadOf parsePhoneNumber row =
     \<lparr>name = cleanText (row_name row),
      number = (case canonicalPhone parsePhoneNumber row of Some f \<Rightarrow> f | None \<Rightarrow> []),
      email = (if js_trim (row_email row) \<noteq> [] \<and> \<not> badEmail row
               then Some (js_trim (row_email row)) else None)\<rparr>"

text \<open>A row with canonical phone \<open>p\<close> and no email-format error.\<close>

definition accepts :: "phone_parser \<Rightarrow> string \<Rightarrow> 'a ExtractedRow \<Rightarrow> bool" where
  "accepts parsePhoneNumber p row =
     (canonicalPhone parsePhoneNumber row = Some p \<and> \<not> badEmail row)"

text \<open>
  What \<open>parsePhoneNumber\<close> gives on the phone texts of the sample rows; used only where a
  statement is evaluated on concrete rows.
\<close>

definition sample_parser :: phone_parser where
  "sample_parser s =
     (if s = ''+12025550123'' \<or> s = ''(202) 555-0123'' \<or> s = ''202-555-0123''
      then Parsed True ''+12025550123''
      else if s = ''+12025550199'' then Parsed True ''+12025550199''
      else ParseThrows (ErrorObject ''NOT_A_NUMBER''))"

section \<open>Column Detector\<close>

text \<open>
  \<open>h.toLowerCase().replace(/[^a-z0-9]/g, '')\<close> on code units below 256: the letters
  \<open>A\<close> to \<open>Z\<close> become \<open>a\<close> to \<open>z\<close>; every other character that lower-casing
  changes stays outside \<open>a-z0-9\<close> and is removed.
\<close>

definition to_lower :: "char \<Rightarrow> char" where
  "to_lower c =
     (let n = (of_char c :: nat) in if 65 \<le> n \<and> n \<le> 90 then char_of (n + 32) else c)"

definition is_lower_alnum :: "char \<Rightarrow> bool" where
  "is_lower_alnum c =
     (let n = (of_char c :: nat) in (97 \<le> n \<and> n \<le> 122) \<or> (48 \<le> n \<and> n \<le> 57))"

definition normalize_header :: "string \<Rightarrow> string" where
  "normalize_header h = filter is_lower_alnum (map to_lower h)"

text \<open>\<open>s.includes(pat)\<close>: \<open>pat\<close> occurs in \<open>s\<close> as a contiguous substring.\<close>

fun starts_with :: "string \<Rightarrow> string \<Rightarrow> bool" where
  "starts_with s [] = True"
| "starts_with [] (p # ps) = False"
| "starts_with (c # cs) (p # ps) = (c = p \<and> starts_with cs ps)"

fun js_includes :: "string \<Rightarrow> string \<Rightarrow> bool" where
  "js_includes [] pat = (pat = [])"
| "js_includes (c # cs) pat = (starts_with (c # cs) pat \<or> js_includes cs pat)"

text \<open>What one pattern adds to the score of a normalized header (the \<open>if\<close> chain).\<close>

definition pattern_points :: "string \<Rightarrow> string \<Rightarrow> int" where
  "pattern_points normalized pattern =
     (if normalized = pattern then 10
      else if js_includes normalized pattern then 5
      else if js_includes pattern normalized \<and> length normalized > 3 then 2
      else 0)"

text \<open>\<open>patterns.forEach(pattern => ... score += ...)\<close>, starting from 0.\<close>

definition header_score :: "string \<Rightarrow> string list \<Rightarrow> int" where
  "header_score normalized patterns =
     foldl (\<lambda>score pattern. score + pattern_points normalized pattern) 0 patterns"

record scored =
  column :: string
  score :: int

text \<open>\<open>headers.forEach\<close>: a header is pushed with its score when the score is positive.\<close>

definition collect_scores :: "string list \<Rightarrow> string list \<Rightarrow> scored list" where
  "collect_scores headers patterns =
     foldl (\<lambda>scores header.
              let s = header_score (normalize_header header) patterns
              in if s > 0 then scores @ [\<lparr>column = header, score = s\<rparr>] else scores)
       [] headers"

record detection =
  best_column :: "string option"
  confidence :: rat
  alternates :: "string list"

text \<open>
  \<open>scores.sort((a, b) => b.score - a.score)\<close> is a stable sort by descending score:
  \<open>sort_key\<close> on the negated score. \<open>bestMatch?.column || null\<close> is \<open>null\<close> also for
  an empty column name. The confidence \<open>Math.min(score / 10, 1)\<close> is kept as the exact
  quotient.
\<close>

definition detectColumn :: "string list \<Rightarrow> string list \<Rightarrow> detection" where
  "detectColumn headers patterns =
     (let scores = sort_key (\<lambda>s. - score s) (collect_scores headers patterns);
          alts = map column (js_slice scores 1 4)
      in case scores of
           [] \<Rightarrow> \<lparr>best_column = None, confidence = 0, alternates = alts\<rparr>
         | bestMatch # _ \<Rightarrow>
             \<lparr>best_column = (if column bestMatch = [] then None else Some (column bestMatch)),
              confidence = min (of_int (score bestMatch) / 10) 1,
              alternates = alts\<rparr>)"

datatype semantic_field = Phone | Name | Email

definition phonePatterns :: "string list" where
  "phonePatterns = [''phone'', ''mobile'', ''cell'', ''number'', ''telephone'', ''contact'']"

definition namePatterns :: "string list" where
  "namePatterns = [''name'', ''customer'', ''client'', ''contact'', ''person'', ''lead'']"

definition emailPatterns :: "string list" where
  "emailPatterns = [''email'', ''mail'', ''email_address'', ''e-mail'']"

definition field_patterns :: "semantic_field \<Rightarrow> string list" where
  "field_patterns f = (case f of Phone \<Rightarrow> phonePatterns | Name \<Rightarrow> namePatterns
                       | Email \<Rightarrow> emailPatterns)"

record ColumnDetection =
  dc_field :: semantic_field
  detectedColumn :: "string option"
  dc_confidence :: rat
  dc_alternates :: "string list"

definition detect_field :: "string list \<Rightarrow> semantic_field \<Rightarrow> ColumnDetection" where
  "detect_field headers f =
     (let d = detectColumn headers (field_patterns f)
      in \<lparr>dc_field = f, detectedColumn = best_column d, dc_confidence = confidence d,
          dc_alternates = alternates d\<rparr>)"

definition detectColumns :: "string list \<Rightarrow> ColumnDetection list" where
  "detectColumns headers =
     [detect_field headers Phone, detect_field headers Name, detect_field headers Email]"

text \<open>The score of a header as the column detector computes it for a pattern list.\<close>

definition score_of :: "string list \<Rightarrow> string \<Rightarrow> int" where
  "score_of patterns header = header_score (normalize_header header) patterns"

section \<open>Chunk Scheduler (ChunkProcessor and the worker script)\<close>

record ChunkProcessorOptions =
  chunkSize :: int
  yieldInterval :: int
  useWebWorker :: bool
  memoryThreshold :: int
  onProgress :: bool

text \<open>The defaults of the constructor; no progress callback is installed.\<close>

definition defaultOptions :: ChunkProcessorOptions where
  "defaultOptions =
     \<lparr>chunkSize = 1000, yieldInterval = 50, useWebWorker = True, memoryThreshold = 500,
      onProgress = False\<rparr>"

text \<open>
  What a run does that the caller can observe, in order: a chunk handed to the processor,
  a call of the progress callback, a pause of the given number of milliseconds. The promise
  that a path returns is resolved with the results or rejected with a message.
\<close>

datatype 't event = ChunkProcessed "'t list" | ProgressReport int int | Yielded int

datatype 'r settled = Resolved "'r list" | Rejected string

text \<open>
  \<open>processInChunks\<close>: the loop \<open>for (let i = 0; i < data.length; i += chunkSize)\<close>.
  The state is the \<open>results\<close> array and the events so far. The loop does not end when
  \<open>chunkSize \<le> 0\<close> and the data is not empty; not returning is \<open>None\<close>.
\<close>

partial_function (option) processInChunks_loop ::
  "ChunkProcessorOptions \<Rightarrow> 't list \<Rightarrow> ('t list \<Rightarrow> 'r list) \<Rightarrow> int
     \<Rightarrow> 'r list \<times> 't event list \<Rightarrow> ('r list \<times> 't event list) option" where
  "processInChunks_loop opts dat processor i st =
     (if i < int (length dat) then
        processInChunks_loop opts dat processor (i + chunkSize opts)
          (fst st @ processor (js_slice dat i (i + chunkSize opts)),
           snd st @ [ChunkProcessed (js_slice dat i (i + chunkSize opts))]
                  @ (if onProgress opts
                     then [ProgressReport (min (i + chunkSize opts) (int (length dat)))
                             (int (length dat))]
                     else [])
                  @ [Yielded (yieldInterval opts)])
      else Some st)"

declare processInChunks_loop.simps [code]

definition processInChunks ::
  "ChunkProcessorOptions \<Rightarrow> 't list \<Rightarrow> ('t list \<Rightarrow> 'r list)
     \<Rightarrow> ('r settled \<times> 't event list) option" where
  "processInChunks opts dat processor =
     (case processInChunks_loop opts dat processor 0 ([], []) of
        None \<Rightarrow> None
      | Some (results, events) \<Rightarrow> Some (Resolved results, events))"

text \<open>
  The rows posted to the worker are plain objects: lists of properties in insertion order.
  \<open>{...item, processed: true}\<close> copies the properties and sets \<open>processed\<close>, in place
  when the item has that property already, at the end otherwise.
\<close>

datatype jsval = JBool bool | JNum int | JStr string

type_synonym js_object = "(string \<times> jsval) list"

definition mark_processed :: "js_object \<Rightarrow> js_object" where
  "mark_processed item = AList.update ''processed'' (JBool True) item"

datatype worker_message =
  ProgressMsg int int | ResultMsg "js_object list" | CompleteMsg | ErrorMsg string

text \<open>
  \<open>processData\<close> of the worker script: per chunk a \<open>result\<close> message, then a
  \<open>progress\<close> message; at the end \<open>complete\<close>. The messages are collected in the
  order of posting.
\<close>

partial_function (option) worker_processData_loop ::
  "js_object list \<Rightarrow> int \<Rightarrow> int \<Rightarrow> worker_message list \<Rightarrow> worker_message list option" where
  "worker_processData_loop dat csize i posted =
     (if i < int (length dat) then
        worker_processData_loop dat csize (i + csize)
          (posted @ [ResultMsg (map mark_processed (js_slice dat i (i + csize))),
                     ProgressMsg (min (i + csize) (int (length dat))) (int (length dat))])
      else Some (posted @ [CompleteMsg]))"

declare worker_processData_loop.simps [code]

definition worker_processData :: "js_object list \<Rightarrow> int \<Rightarrow> worker_message list option" where
  "worker_processData dat csize = worker_processData_loop dat csize 0 []"

text \<open>
  The \<open>onmessage\<close> handler of \<open>processWithWebWorker\<close>. Its state is the \<open>results\<close>
  array, the calls of the progress callback, and the promise, which only the first
  \<open>resolve\<close> or \<open>reject\<close> settles.
\<close>

record handler_state =
  results :: "js_object list"
  reports :: "js_object event list"
  promise :: "js_object settled option"

fun onmessage :: "ChunkProcessorOptions \<Rightarrow> handler_state \<Rightarrow> worker_message \<Rightarrow> handler_state" where
  "onmessage opts st (ProgressMsg done_rows all_rows) =
     (if onProgress opts then st\<lparr>reports := reports st @ [ProgressReport done_rows all_rows]\<rparr>
      else st)"
| "onmessage opts st (ResultMsg rows) = st\<lparr>results := results st @ rows\<rparr>"
| "onmessage opts st CompleteMsg =
     (case promise st of None \<Rightarrow> st\<lparr>promise := Some (Resolved (results st))\<rparr> | Some _ \<Rightarrow> st)"
| "onmessage opts st (ErrorMsg msg) =
     (case promise st of None \<Rightarrow> st\<lparr>promise := Some (Rejected msg)\<rparr> | Some _ \<Rightarrow> st)"

text \<open>
  \<open>processWithWebWorker\<close> posts the data and the chunk size to the worker; the
  \<open>processor\<close> argument is not used. The promise stays pending (\<open>None\<close>) when the
  worker never posts \<open>complete\<close> or \<open>error\<close>.
\<close>

definition processWithWebWorker ::
  "ChunkProcessorOptions \<Rightarrow> js_object list \<Rightarrow> (js_object list \<Rightarrow> js_object list)
     \<Rightarrow> (js_object settled \<times> js_object event list) option" where
  "processWithWebWorker opts dat processor =
     (case worker_processData dat (chunkSize opts) of
        None \<Rightarrow> None
      | Some messages \<Rightarrow>
          (let st = foldl (onmessage opts) \<lparr>results = [], reports = [], promise = None\<rparr> messages
           in case promise st of None \<Rightarrow> None | Some outcome \<Rightarrow> Some (outcome, reports st)))"

text \<open>
  \<open>processData\<close>. Whether the host has \<open>Worker\<close> (\<open>typeof Worker !== 'undefined'\<close>)
  is an argument.
\<close>

definition processData ::
  "ChunkProcessorOptions \<Rightarrow> bool \<Rightarrow> js_object list \<Rightarrow> (js_object list \<Rightarrow> js_object list)
     \<Rightarrow> (js_object settled \<times> js_object event list) option" where
  "processData opts workerDefined dat processor =
     (if useWebWorker opts \<and> length dat > 10000 \<and> workerDefined
      then processWithWebWorker opts dat processor
      else processInChunks opts dat processor)"

text \<open>The calls of the progress callback among the events of a run, in order.\<close>

fun progress_reports :: "'t event list \<Rightarrow> (int \<times> int) list" where
  "progress_reports [] = []"
| "progress_reports (ProgressReport p t # es) = (p, t) # progress_reports es"
| "progress_reports (e # es) = progress_reports es"

text \<open>The number of chunks of \<open>n\<close> rows for a positive chunk size.\<close>

definition chunk_count :: "nat \<Rightarrow> int \<Rightarrow> nat" where
  "chunk_count n csize = (n + nat csize - 1) div nat csize"

text \<open>A processor that rejects every row, and one sample row, for concrete runs.\<close>

definition reject_all :: "js_object list \<Rightarrow> js_object list" where
  "reject_all chunk = []"

definition sample_item :: js_object where
  "sample_item = [(''phone'', JStr ''+12025550123'')]"

text \<open>
  Chunk \<open>k\<close> of the data for a positive chunk size, and the events of the sequential
  path for that chunk.
\<close>

definition chunk_at :: "'t list \<Rightarrow> int \<Rightarrow> nat \<Rightarrow> 't list" where
  "chunk_at dat csize k = take (nat csize) (drop (k * nat csize) dat)"

definition chunk_events :: "ChunkProcessorOptions \<Rightarrow> 't list \<Rightarrow> nat \<Rightarrow> 't event list" where
  "chunk_events opts dat k =
     [ChunkProcessed (chunk_at dat (chunkSize opts) k)]
     @ (if onProgress opts
        then [ProgressReport (min (int k * chunkSize opts + chunkSize opts) (int (length dat)))
                (int (length dat))]
        else [])
     @ [Yielded (yieldInterval opts)]"

section \<open>Arithmetic of chunked loops\<close>

lemma js_slice_chunk:
  "0 \<le> i \<Longrightarrow> 0 < c \<Longrightarrow> js_slice xs i (i + c) = take (nat c) (drop (nat i) xs)"
  by (auto simp: js_slice_def Let_def min_def max_def)

lemma ceil_div_less: "0 < (n::nat) \<Longrightarrow> j < (len + n - 1) div n \<longleftrightarrow> j * n < len"
proof -
  assume n: "0 < n"
  have "j < (len + n - 1) div n \<longleftrightarrow> (j + 1) * n \<le> len + n - 1"
    using n by (simp add: less_eq_div_iff_mult_less_eq Suc_le_eq[symmetric])
  also have "\<dots> \<longleftrightarrow> j * n < len" using n by (cases n) auto
  finally show ?thesis .
qed

lemma ceil_mult_ge: "0 < (n::nat) \<Longrightarrow> len \<le> (len + n - 1) div n * n"
proof -
  assume n: "0 < n"
  have "\<not> ((len + n - 1) div n) * n < len" using ceil_div_less[OF n, of "(len + n - 1) div n" len] by simp
  then show ?thesis by simp
qed

lemma concat_chunks_take:
  "0 < n \<Longrightarrow> concat (map (\<lambda>k. take n (drop (k * n) xs)) [0..<m]) = take (m * n) xs"
proof (induction m)
  case 0 then show ?case by simp
next
  case (Suc m)
  have "take (m * n) xs @ take n (drop (m * n) xs) = take (m * n + n) xs"
    by (simp add: take_add)
  then show ?case using Suc by (simp add: add.commute)
qed

section \<open>Properties of the Batch Uploader\<close>

lemma createBatches_loop_pos:
  assumes c: "0 < c"
  shows "createBatches_loop xs c (int j * c) acc =
     Some (acc @ map (\<lambda>k. take (nat c) (drop (k * nat c) xs)) [j ..< (length xs + nat c - 1) div nat c])"
proof (induction "(length xs + nat c - 1) div nat c - j" arbitrary: j acc)
  case 0
  then have "\<not> j < (length xs + nat c - 1) div nat c" by simp
  then have "\<not> j * nat c < length xs" using c ceil_div_less[of "nat c" j "length xs"] by simp
  then have "\<not> int j * c < int (length xs)" using c
    by (metis int_nat_eq of_nat_less_iff of_nat_mult order_less_imp_le)
  then show ?case using 0 by (subst createBatches_loop.simps) simp
next
  case (Suc d)
  then have lt: "j < (length xs + nat c - 1) div nat c" by simp
  then have "j * nat c < length xs" using c ceil_div_less[of "nat c" j "length xs"] by simp
  then have i: "int j * c < int (length xs)" using c
    by (metis int_nat_eq of_nat_less_iff of_nat_mult order_less_imp_le)
  have nxt: "int j * c + c = int (Suc j) * c" by (simp add: algebra_simps)
  have sl: "js_slice xs (int j * c) (int (Suc j) * c) = take (nat c) (drop (j * nat c) xs)"
    using c js_slice_chunk[of "int j * c" c xs] by (simp add: nat_mult_distrib nxt)
  have "createBatches_loop xs c (int j * c) acc =
        createBatches_loop xs c (int (Suc j) * c) (acc @ [take (nat c) (drop (j * nat c) xs)])"
    using i by (subst createBatches_loop.simps) (simp only: nxt sl if_True)
  also have "\<dots> = Some ((acc @ [take (nat c) (drop (j * nat c) xs)]) @
      map (\<lambda>k. take (nat c) (drop (k * nat c) xs)) [Suc j ..< (length xs + nat c - 1) div nat c])"
    using Suc by (intro Suc.hyps(1)) simp
  finally show ?case using lt by (simp add: upt_conv_Cons)
qed

lemma createBatches_pos:
  "0 < c \<Longrightarrow> createBatches xs c =
     Some (map (\<lambda>k. take (nat c) (drop (k * nat c) xs)) [0 ..< (length xs + nat c - 1) div nat c])"
  using createBatches_loop_pos[of c xs 0 "[]"] by (simp add: createBatches_def)


lemma appendBatches_all_respond:
  "\<forall>k. \<exists>ok b. srv k = Response ok b \<Longrightarrow> appendBatches srv cid h bs i lg =
     (None, \<lparr>batchResults = batchResults lg @ map (batchResultOf srv bs) [i..<length bs],
             sent = sent lg @ map (\<lambda>k. \<lparr>endpoint = customers_endpoint cid,
                                        payload = CustomersBody (bs ! k)\<rparr>) [i..<length bs],
             progressCalls = progressCalls lg @
               (if h then map (\<lambda>k. (k + 1, length bs)) [i..<length bs] else [])\<rparr>)"
proof (induction srv cid h bs i lg rule: appendBatches.induct)
  case (1 srv cid h bs i lg)
  show ?case
  proof (cases "i < length bs")
    case False
    then show ?thesis by (subst appendBatches.simps) simp
  next
    case True
    from "1.prems" obtain ok b where r: "srv i = Response ok b" by blast
    show ?thesis
      apply (subst appendBatches.simps)
      using True r "1.IH"[OF True refl refl r "1.prems"]
      apply (simp add: Let_def upt_conv_Cons batchResultOf_def del: appendBatches.simps)
      done
  qed
qed


lemma createBatches_1000:
  "createBatches xs 1000 =
     Some (map (\<lambda>k. take 1000 (drop (k * 1000) xs)) [0 ..< (length xs + 999) div 1000])"
  using createBatches_pos[of 1000 xs] by (simp add: add.commute)




text \<open>
  Claim C4 says that after a batch-append request has answered with a non-success status
  the remaining batches are still attempted and the final result stays a success. That
  fails when a later request does not answer at all: \<open>sendRequest\<close> is inside the
  \<open>try\<close>, so a \<open>fetch\<close> that throws leaves the loop for the \<open>catch\<close> block. With
  2500 leads, batch 2 answering with a non-success status and the request for batch 3
  throwing, the result is a failure with the thrown message, without campaign identifier
  and without the Batch Result recorded for batch 2.
\<close>
theorem createCampaign_later_throw_counterexample:
  "failing_network 0 = Response True (BodyJson (Some ''camp_1'') None)
   \<and> failing_network 1 = Response False (BodyJson None (Some ''rate limited''))
   \<and> map_option fst
        (createCampaign failing_network ''Spring''
           (replicate 2500 \<lparr>name = ''Ann'', number = ''+12025550123'', email = None\<rparr>)
           (Some ''asst_1'') None None True)
     = Some \<lparr>success = False, campaignId = None, error = Some ''Failed to fetch'',
             details = None\<rparr>"
proof -
  let ?leads = "replicate 2500 \<lparr>name = ''Ann'', number = ''+12025550123'', email = None\<rparr>"
  have three: "[0..<(length ?leads + 999) div 1000] = [0, 1, 2]"
    by (simp add: upt_conv_Cons)
  have bs: "createBatches ?leads 1000 =
      Some [replicate 1000 \<lparr>name = ''Ann'', number = ''+12025550123'', email = None\<rparr>,
            replicate 1000 \<lparr>name = ''Ann'', number = ''+12025550123'', email = None\<rparr>,
            replicate 500 \<lparr>name = ''Ann'', number = ''+12025550123'', email = None\<rparr>]"
    by (simp only: createBatches_1000 three) simp
  have s0: "failing_network 0 = Response True (BodyJson (Some ''camp_1'') None)"
    and s1: "failing_network 1 = Response False (BodyJson None (Some ''rate limited''))"
    and s1': "failing_network (Suc 0) = Response False (BodyJson None (Some ''rate limited''))"
    and s2: "failing_network 2 = FetchThrows (ErrorObject ''Failed to fetch'')"
    and s2': "failing_network (Suc (Suc 0)) = FetchThrows (ErrorObject ''Failed to fetch'')"
    by (simp_all add: failing_network_def)
  have run: "map_option fst
        (createCampaign failing_network ''Spring'' ?leads (Some ''asst_1'') None None True)
     = Some \<lparr>success = False, campaignId = None, error = Some ''Failed to fetch'',
             details = None\<rparr>"
    by (simp add: createCampaign_def bs Let_def s0 s1 s1' s2 s2' appendBatches.simps failure_def)
  from s0 s1 run show ?thesis by (intro conjI)
qed

text \<open>
  Claim C4, amended. After a successful campaign-creation request, and provided that
  every batch-append request answers with some status (none throws), a batch whose request
  answers with a non-success status is recorded as a Batch Result with \<open>success = false\<close>,
  the number of leads of that batch and the error message \<open>Failed to add batch\<close>; every
  remaining batch is still sent, in order; and the final result has \<open>success = true\<close>,
  the campaign identifier and the Batch Results of batches 2, 3, ... in order.
\<close>
theorem createCampaign_failed_batch_recorded:
  assumes "srv 0 = Response True (BodyJson cid m)"
    and "\<forall>k. \<exists>ok b. srv k = Response ok b"
  shows "\<exists>r lg bs. createCampaign srv campaignName leads assistantId workflowId phoneNumberId
                  hasOnProgress = Some (r, lg)
           \<and> createBatches leads 1000 = Some bs
           \<and> success r = True \<and> campaignId r = cid \<and> error r = None
           \<and> details r = Some \<lparr>totalLeads = length leads,
                                batches = map (batchResultOf srv bs) [1..<length bs]\<rparr>
           \<and> (\<forall>k. 1 \<le> k \<and> k < length bs \<and> \<not> resp_ok (srv k) \<longrightarrow>
                 batchResultOf srv bs k =
                   \<lparr>batchNumber = k + 1, batchSuccess = False,
                    leadsProcessed = length (bs ! k),
                    batchError = Some ''Failed to add batch''\<rparr>)
           \<and> map payload (tl (sent lg)) = map (\<lambda>k. CustomersBody (bs ! k)) [1..<length bs]"
  using assms
  by (simp add: createCampaign_def createBatches_1000 Let_def appendBatches_all_respond
        batchResultOf_def o_def)

lemma chunk_list_props:
  fixes xs :: "'a list"
  defines "bs \<equiv> map (\<lambda>k. take 1000 (drop (k * 1000) xs)) [0 ..< (length xs + 999) div 1000]"
  shows "length bs = (length xs + 999) div 1000"
    and "\<forall>k<length bs. bs ! k = take 1000 (drop (k * 1000) xs)"
    and "concat bs = xs"
proof -
  show "length bs = (length xs + 999) div 1000" by (simp add: bs_def)
  show "\<forall>k<length bs. bs ! k = take 1000 (drop (k * 1000) xs)" by (simp add: bs_def)
  have "length xs \<le> (length xs + 999) div 1000 * 1000" using ceil_mult_ge[of 1000 "length xs"] by simp
  then show "concat bs = xs"
    unfolding bs_def using concat_chunks_take[of 1000 xs "(length xs + 999) div 1000"] by simp
qed


lemma upt_0_3: "[0..<3] = [0, 1, 2::nat]"
  by (simp add: upt_conv_Cons)

lemma upt_1_3: "[1..<3] = [1, 2::nat]"
  by (simp add: upt_conv_Cons)


lemma createCampaign_all_respond:
  assumes "srv 0 = Response True (BodyJson cid m)"
    and "\<forall>k. \<exists>ok b. srv k = Response ok b"
    and "createBatches leads 1000 = Some bs"
  shows "createCampaign srv campaignName leads assistantId workflowId phoneNumberId hasOnProgress =
     Some (\<lparr>success = True, campaignId = cid, error = None,
            details = Some \<lparr>totalLeads = length leads,
                             batches = map (batchResultOf srv bs) [1..<length bs]\<rparr>\<rparr>,
           \<lparr>batchResults = map (batchResultOf srv bs) [1..<length bs],
            sent = \<lparr>endpoint = ''campaign'',
                    payload = CampaignBody
                      \<lparr>cb_name = campaignName,
                       customers = (case bs of [] \<Rightarrow> None | b # _ \<Rightarrow> Some b),
                       cb_assistantId = (if truthy assistantId then assistantId else None),
                       cb_workflowId =
                         (if \<not> truthy assistantId \<and> truthy workflowId then workflowId else None),
                       cb_phoneNumberId = (if truthy phoneNumberId then phoneNumberId else None)\<rparr>\<rparr>
                  # map (\<lambda>k. \<lparr>endpoint = customers_endpoint cid,
                                payload = CustomersBody (bs ! k)\<rparr>) [1..<length bs],
            progressCalls = (if hasOnProgress then map (\<lambda>k. (k + 1, length bs)) [1..<length bs]
                             else [])\<rparr>)"
  using assms(1,3)
  by (simp add: createCampaign_def Let_def appendBatches_all_respond[OF assms(2)]
        split del: if_split cong: if_cong)

text \<open>
  Claim C6. \<open>createBatches\<close> with batch size 1000 returns, for a list of \<open>n\<close> leads,
  \<open>\<lceil>n / 1000\<rceil>\<close> batches; batch \<open>k\<close> is the contiguous slice of at most 1000 leads that
  starts at position \<open>1000 k\<close>, and the batches concatenated in order are the whole list.
  For 2500 leads there are three batches, and a run in which every request succeeds
  reports two Batch Results and a total of 2500 leads.
\<close>
theorem createBatches_partition:
  fixes leads :: "ValidatedLead list"
  shows "(\<exists>bs. createBatches leads 1000 = Some bs
            \<and> length bs = (length leads + 999) div 1000
            \<and> (\<forall>k<length bs. bs ! k = take 1000 (drop (k * 1000) leads))
            \<and> concat bs = leads)
       \<and> (length leads = 2500 \<and> srv 0 = Response True (BodyJson cid m)
            \<and> (\<forall>k. \<exists>b. srv k = Response True b) \<longrightarrow>
           (\<exists>b1 b2 b3. createBatches leads 1000 = Some [b1, b2, b3])
            \<and> (\<exists>r lg d. createCampaign srv campaignName leads assistantId workflowId
                           phoneNumberId hasOnProgress = Some (r, lg)
                  \<and> success r \<and> details r = Some d
                  \<and> length (batches d) = 2 \<and> totalLeads d = 2500))"
proof (rule conjI[OF _ impI])
  define bs where "bs = map (\<lambda>k. take 1000 (drop (k * 1000) leads))
                          [0 ..< (length leads + 999) div 1000]"
  have cb: "createBatches leads 1000 = Some bs"
    unfolding bs_def by (rule createBatches_1000)
  have p1: "length bs = (length leads + 999) div 1000"
    and p2: "\<forall>k<length bs. bs ! k = take 1000 (drop (k * 1000) leads)"
    and p3: "concat bs = leads"
    unfolding bs_def by (rule chunk_list_props)+
  show "\<exists>bs. createBatches leads 1000 = Some bs
            \<and> length bs = (length leads + 999) div 1000
            \<and> (\<forall>k<length bs. bs ! k = take 1000 (drop (k * 1000) leads))
            \<and> concat bs = leads"
    by (intro exI[of _ bs] conjI cb p1 p2 p3)
next
  assume h: "length leads = 2500 \<and> srv 0 = Response True (BodyJson cid m)
            \<and> (\<forall>k. \<exists>b. srv k = Response True b)"
  then have len: "length leads = 2500" and s0: "srv 0 = Response True (BodyJson cid m)"
    and resp: "\<forall>k. \<exists>ok b. srv k = Response ok b" by blast+
  have "(length leads + 999) div 1000 = 3" by (simp add: len)
  then have three: "[0..<(length leads + 999) div 1000] = [0, 1, 2]"
    by (simp only: upt_0_3)
  have bs: "createBatches leads 1000 = Some [take 1000 leads, take 1000 (drop 1000 leads),
              take 1000 (drop 2000 leads)]"
    by (simp only: createBatches_1000 three) simp
  have one: "\<exists>b1 b2 b3. createBatches leads 1000 = Some [b1, b2, b3]"
    by (intro exI) (rule bs)
  have two: "\<exists>r lg d. createCampaign srv campaignName leads assistantId workflowId
                           phoneNumberId hasOnProgress = Some (r, lg)
                  \<and> success r \<and> details r = Some d
                  \<and> length (batches d) = 2 \<and> totalLeads d = 2500"
    by (simp add: createCampaign_all_respond[OF s0 resp bs] len upt_1_3)
  from one two show "(\<exists>b1 b2 b3. createBatches leads 1000 = Some [b1, b2, b3])
            \<and> (\<exists>r lg d. createCampaign srv campaignName leads assistantId workflowId
                           phoneNumberId hasOnProgress = Some (r, lg)
                  \<and> success r \<and> details r = Some d
                  \<and> length (batches d) = 2 \<and> totalLeads d = 2500)"
    by (rule conjI)
qed

theorem createBatches_partition_witness:
  "\<exists>r lg d. createCampaign (\<lambda>k. Response True (BodyJson (Some ''camp_1'') None)) ''Spring''
       (replicate 2500 \<lparr>name = ''Ann'', number = ''+12025550123'', email = None\<rparr>)
       None (Some ''wf_1'') None True = Some (r, lg)
     \<and> success r \<and> details r = Some d \<and> length (batches d) = 2 \<and> totalLeads d = 2500"
  using createBatches_partition
    [of "replicate 2500 \<lparr>name = ''Ann'', number = ''+12025550123'', email = None\<rparr>"
        "\<lambda>k. Response True (BodyJson (Some ''camp_1'') None)" "Some ''camp_1''" None
        "''Spring''" None "Some ''wf_1''" None True]
  by simp

text \<open>
  Claim C10. For an empty lead list \<open>createBatches\<close> returns no batch, so \<open>batches[0]\<close>
  is \<open>undefined\<close> and the campaign-creation request carries no \<open>customers\<close>; when the
  server accepts that request the result is a success with an empty Batch Result list and a
  total of 0 leads, and no other request is sent.
\<close>
theorem createCampaign_empty_leads:
  "createBatches ([] :: ValidatedLead list) 1000 = Some []
   \<and> (\<exists>r lg cb rest.
         createCampaign srv campaignName [] assistantId workflowId phoneNumberId hasOnProgress
           = Some (r, lg)
       \<and> sent lg = \<lparr>endpoint = ''campaign'', payload = CampaignBody cb\<rparr> # rest
       \<and> customers cb = None \<and> cb_name cb = campaignName
       \<and> (\<forall>cid m. srv 0 = Response True (BodyJson cid m) \<longrightarrow>
             r = \<lparr>success = True, campaignId = cid, error = None,
                  details = Some \<lparr>totalLeads = 0, batches = []\<rparr>\<rparr>
             \<and> rest = [] \<and> batchResults lg = []))"
proof -
  have b: "createBatches ([] :: ValidatedLead list) 1000 = Some []"
    by (simp add: createBatches_1000)
  have a: "appendBatches srv c hasOnProgress [] i l = (None, l)" for c l i
    by (subst appendBatches.simps) simp
  show ?thesis
    by (cases "srv 0")
       (auto simp: b a createCampaign_def Let_def split: body.splits)
qed

theorem createCampaign_empty_leads_witness:
  "\<exists>lg. createCampaign (\<lambda>k. Response True (BodyJson (Some ''camp_1'') None)) ''Spring'' []
          (Some ''asst_1'') None None False
        = Some (\<lparr>success = True, campaignId = Some ''camp_1'', error = None,
                  details = Some \<lparr>totalLeads = 0, batches = []\<rparr>\<rparr>, lg)
      \<and> batchResults lg = [] \<and> length (sent lg) = 1"
  using createCampaign_empty_leads
    [of "\<lambda>k. Response True (BodyJson (Some ''camp_1'') None)" "''Spring''"
        "Some ''asst_1''" None None False]
  by auto

theorem createCampaign_failed_batch_recorded_witness:
  "\<exists>r lg d. createCampaign
        (\<lambda>k. if k = 1 then Response False (BodyJson None (Some ''rate limited''))
              else Response True (BodyJson (Some ''camp_1'') None))
        ''Spring'' (replicate 2500 \<lparr>name = ''Ann'', number = ''+12025550123'', email = None\<rparr>)
        (Some ''asst_1'') None None True = Some (r, lg)
     \<and> success r \<and> campaignId r = Some ''camp_1'' \<and> details r = Some d
     \<and> map batchSuccess (batches d) = [False, True]
     \<and> map batchError (batches d) = [Some ''Failed to add batch'', None]
     \<and> map leadsProcessed (batches d) = [1000, 500]"
proof -
  let ?srv = "\<lambda>k::nat. if k = 1 then Response False (BodyJson None (Some ''rate limited''))
              else Response True (BodyJson (Some ''camp_1'') None)"
  let ?leads = "replicate 2500 \<lparr>name = ''Ann'', number = ''+12025550123'', email = None\<rparr>"
  have h0: "?srv 0 = Response True (BodyJson (Some ''camp_1'') None)" by simp
  have h1: "\<forall>k. \<exists>ok b. ?srv k = Response ok b" by auto
  have three: "[0..<(length ?leads + 999) div 1000] = [0, 1, 2]"
    by (simp add: upt_conv_Cons)
  have bs: "createBatches ?leads 1000 =
      Some [replicate 1000 \<lparr>name = ''Ann'', number = ''+12025550123'', email = None\<rparr>,
            replicate 1000 \<lparr>name = ''Ann'', number = ''+12025550123'', email = None\<rparr>,
            replicate 500 \<lparr>name = ''Ann'', number = ''+12025550123'', email = None\<rparr>]"
    by (simp only: createBatches_1000 three) simp
  from createCampaign_failed_batch_recorded[OF h0 h1, of "''Spring''" ?leads "Some ''asst_1''" None None True]
  obtain r lg bs' where run:
    "createCampaign ?srv ''Spring'' ?leads (Some ''asst_1'') None None True = Some (r, lg)"
    and b': "createBatches ?leads 1000 = Some bs'"
    and r: "success r" "campaignId r = Some ''camp_1''"
    and d: "details r = Some \<lparr>totalLeads = length ?leads,
              batches = map (batchResultOf ?srv bs') [1..<length bs']\<rparr>"
    and s: "map payload (tl (sent lg)) = map (\<lambda>k. CustomersBody (bs' ! k)) [1..<length bs']"
    by blast
  from b' bs have bs': "bs' = [replicate 1000 \<lparr>name = ''Ann'', number = ''+12025550123'', email = None\<rparr>,
            replicate 1000 \<lparr>name = ''Ann'', number = ''+12025550123'', email = None\<rparr>,
            replicate 500 \<lparr>name = ''Ann'', number = ''+12025550123'', email = None\<rparr>]"
    by simp
  have idx: "[1..<length bs'] = [1, 2]" by (simp add: bs' upt_conv_Cons)
  show ?thesis
    using run r d unfolding idx
    by (intro exI[of _ r] exI[of _ lg]) (simp add: batchResultOf_def bs')
qed

section \<open>Properties of the Record Validator\<close>

lemma formatPhoneNumber_shape:
  "(\<exists>e. formatPhoneNumber parse ph = \<lparr>isValid = False, formatted = None, phoneError = Some e\<rparr>)
   \<or> (\<exists>f. formatPhoneNumber parse ph = \<lparr>isValid = True, formatted = Some f, phoneError = None\<rparr>)"
  by (auto simp: formatPhoneNumber_def split: parse_outcome.splits thrown.splits)

lemma canonicalPhone_Some:
  "canonicalPhone parse row = Some p \<longleftrightarrow>
     formatPhoneNumber parse (row_phone row) = \<lparr>isValid = True, formatted = Some p, phoneError = None\<rparr>
     \<and> p \<noteq> []"
  using formatPhoneNumber_shape[of parse "row_phone row"]
  by (auto simp: canonicalPhone_def Let_def)

lemma canonicalPhone_None:
  "canonicalPhone parse row = None \<Longrightarrow>
     \<not> isDuplicate (formatPhoneNumber parse (row_phone row)) seen
     \<and> (\<not> isValid (formatPhoneNumber parse (row_phone row))
          \<or> \<not> truthy (formatted (formatPhoneNumber parse (row_phone row))))"
  using formatPhoneNumber_shape[of parse "row_phone row"]
  by (auto simp: canonicalPhone_def Let_def isDuplicate_def split: if_splits)

lemma rowErrors_canonical:
  "canonicalPhone parse row = Some p \<Longrightarrow>
     rowErrors parse seen row =
       (if p \<in> seen then [''Duplicate phone number''] else [])
       @ (if badEmail row then [''Invalid email format''] else [])"
  by (simp add: canonicalPhone_Some rowErrors_def Let_def isDuplicate_def)

lemma rowErrors_no_canonical:
  "canonicalPhone parse row = None \<Longrightarrow> rowErrors parse seen row \<noteq> []"
  using canonicalPhone_None[of parse row seen] by (auto simp: rowErrors_def Let_def)

lemma rowErrors_Nil_iff:
  "rowErrors parse seen row = [] \<longleftrightarrow>
     (\<exists>p. canonicalPhone parse row = Some p \<and> p \<notin> seen) \<and> \<not> badEmail row"
proof (cases "canonicalPhone parse row")
  case None
  then show ?thesis using rowErrors_no_canonical[OF None, of seen] by simp
next
  case (Some p)
  then show ?thesis by (simp add: rowErrors_canonical)
qed

lemma validateRow_invalid:
  assumes "rowErrors parse (seenPhones st) row \<noteq> []"
  shows "validateRow parse st row =
     st\<lparr>duplicates_acc := duplicates_acc st +
            (if isDuplicate (formatPhoneNumber parse (row_phone row)) (seenPhones st) then 1 else 0),
        invalid_acc := invalid_acc st @
            [\<lparr>rowIndex = row_rowIndex row, data = row_originalData row,
              errors = rowErrors parse (seenPhones st) row\<rparr>]\<rparr>"
  using assms by (simp add: validateRow_def Let_def)

lemma validateRow_valid:
  assumes "rowErrors parse (seenPhones st) row = []"
  shows "\<exists>p. canonicalPhone parse row = Some p \<and> p \<notin> seenPhones st \<and> \<not> badEmail row \<and>
     validateRow parse st row =
       st\<lparr>seenPhones := insert p (seenPhones st),
          valid_acc := valid_acc st @ [leadOf parse row]\<rparr>"
proof -
  from assms obtain p where p: "canonicalPhone parse row = Some p" "p \<notin> seenPhones st"
    and e: "\<not> badEmail row" by (auto simp: rowErrors_Nil_iff)
  from p(1) have f: "formatPhoneNumber parse (row_phone row) =
      \<lparr>isValid = True, formatted = Some p, phoneError = None\<rparr>" and ne: "p \<noteq> []"
    by (simp_all add: canonicalPhone_Some)
  have "validateRow parse st row =
       st\<lparr>seenPhones := insert p (seenPhones st),
          valid_acc := valid_acc st @ [leadOf parse row]\<rparr>"
    using assms p e ne
    by (simp add: validateRow_def Let_def f isDuplicate_def leadOf_def)
  with p e show ?thesis by blast
qed

lemma validateRows_snoc:
  "validateRows parse (xs @ [x]) = validateRow parse (validateRows parse xs) x"
  by (simp add: validateRows_def)

lemma validateRows_Nil:
  "validateRows parse [] = \<lparr>valid_acc = [], invalid_acc = [], seenPhones = {}, duplicates_acc = 0\<rparr>"
  by (simp add: validateRows_def)

lemma seenPhones_validateRows:
  "seenPhones (validateRows parse xs) = {p. \<exists>row\<in>set xs. accepts parse p row}"
proof (induction xs rule: rev_induct)
  case Nil
  show ?case by (simp add: validateRows_Nil)
next
  case (snoc x xs)
  let ?st = "validateRows parse xs"
  show ?case
  proof (cases "rowErrors parse (seenPhones ?st) x = []")
    case True
    from validateRow_valid[OF True] obtain p where
      p: "canonicalPhone parse x = Some p" "\<not> badEmail x"
      and v: "validateRow parse ?st x =
         ?st\<lparr>seenPhones := insert p (seenPhones ?st), valid_acc := valid_acc ?st @ [leadOf parse x]\<rparr>"
      by blast
    have "{q. accepts parse q x} = {p}" using p by (auto simp: accepts_def)
    then have "{q. \<exists>row\<in>set (xs @ [x]). accepts parse q row} =
          insert p {q. \<exists>row\<in>set xs. accepts parse q row}" by auto
    then show ?thesis using snoc by (simp add: validateRows_snoc v)
  next
    case False
    have "accepts parse q x \<Longrightarrow> q \<in> seenPhones ?st" for q
      using False by (auto simp: accepts_def rowErrors_Nil_iff)
    then have "{q. \<exists>row\<in>set (xs @ [x]). accepts parse q row} =
          {q. \<exists>row\<in>set xs. accepts parse q row}" using snoc by auto
    then show ?thesis using snoc by (simp add: validateRows_snoc validateRow_invalid[OF False])
  qed
qed

lemma counts_validateRows:
  "length (valid_acc (validateRows parse xs)) + length (invalid_acc (validateRows parse xs))
     = length xs
   \<and> duplicates_acc (validateRows parse xs) \<le> length (invalid_acc (validateRows parse xs))"
proof (induction xs rule: rev_induct)
  case Nil
  show ?case by (simp add: validateRows_Nil)
next
  case (snoc x xs)
  let ?st = "validateRows parse xs"
  show ?case
  proof (cases "rowErrors parse (seenPhones ?st) x = []")
    case True
    from validateRow_valid[OF True] obtain p where
      "validateRow parse ?st x =
         ?st\<lparr>seenPhones := insert p (seenPhones ?st), valid_acc := valid_acc ?st @ [leadOf parse x]\<rparr>"
      by blast
    then show ?thesis using snoc by (simp add: validateRows_snoc)
  next
    case False
    then show ?thesis using snoc by (simp add: validateRows_snoc validateRow_invalid[OF False])
  qed
qed

lemma valid_acc_validateRow:
  "valid_acc (validateRow parse st row) =
     (if rowErrors parse (seenPhones st) row = [] then valid_acc st @ [leadOf parse row]
      else valid_acc st)"
proof (cases "rowErrors parse (seenPhones st) row = []")
  case True
  from validateRow_valid[OF True] show ?thesis using True by auto
next
  case False
  then show ?thesis by (simp add: validateRow_invalid)
qed

lemma seenPhones_validateRow:
  "seenPhones (validateRow parse st row) =
     (if rowErrors parse (seenPhones st) row = []
      then (case canonicalPhone parse row of Some p \<Rightarrow> insert p (seenPhones st)
            | None \<Rightarrow> seenPhones st)
      else seenPhones st)"
proof (cases "rowErrors parse (seenPhones st) row = []")
  case True
  from validateRow_valid[OF True] show ?thesis using True by auto
next
  case False
  then show ?thesis by (simp add: validateRow_invalid)
qed

lemma invalid_acc_validateRow:
  "invalid_acc (validateRow parse st row) =
     (if rowErrors parse (seenPhones st) row = [] then invalid_acc st
      else invalid_acc st @ [\<lparr>rowIndex = row_rowIndex row, data = row_originalData row,
                               errors = rowErrors parse (seenPhones st) row\<rparr>])"
proof (cases "rowErrors parse (seenPhones st) row = []")
  case True
  from validateRow_valid[OF True] show ?thesis using True by auto
next
  case False
  then show ?thesis by (simp add: validateRow_invalid)
qed

lemma foldl_validateRow_valid_seen:
  "valid_acc st = valid_acc st' \<Longrightarrow> seenPhones st = seenPhones st' \<Longrightarrow>
     valid_acc (foldl (validateRow parse) st ys) = valid_acc (foldl (validateRow parse) st' ys)
     \<and> seenPhones (foldl (validateRow parse) st ys) = seenPhones (foldl (validateRow parse) st' ys)"
proof (induction ys arbitrary: st st')
  case Nil
  then show ?case by simp
next
  case (Cons y ys)
  have "valid_acc (validateRow parse st y) = valid_acc (validateRow parse st' y)"
    and "seenPhones (validateRow parse st y) = seenPhones (validateRow parse st' y)"
    using Cons.prems
    by (simp_all add: valid_acc_validateRow seenPhones_validateRow split: option.splits)
  then show ?case
    using Cons.IH[of "validateRow parse st y" "validateRow parse st' y"] by simp
qed

lemma invalid_acc_foldl_prefix:
  "\<exists>zs. invalid_acc (foldl (validateRow parse) st ys) = invalid_acc st @ zs"
proof (induction ys arbitrary: st)
  case Nil
  show ?case by simp
next
  case (Cons y ys)
  from Cons.IH[of "validateRow parse st y"] obtain zs where
    "invalid_acc (foldl (validateRow parse) (validateRow parse st y) ys) =
       invalid_acc (validateRow parse st y) @ zs" by blast
  then show ?case by (auto simp: invalid_acc_validateRow)
qed

lemma invalid_acc_validateRows_prefix:
  "\<exists>zs. invalid_acc (validateRows parse (xs @ ys)) = invalid_acc (validateRows parse xs) @ zs"
  using invalid_acc_foldl_prefix[of parse "validateRows parse xs" ys]
  by (simp add: validateRows_def)

lemma valid_filter_validateRows:
  "filter (\<lambda>l. number l = p) (valid_acc (validateRows parse xs)) =
     (case find (accepts parse p) xs of None \<Rightarrow> [] | Some row \<Rightarrow> [leadOf parse row])"
proof (induction xs rule: rev_induct)
  case Nil
  show ?case by (simp add: validateRows_Nil)
next
  case (snoc x xs)
  let ?st = "validateRows parse xs"
  have seen: "seenPhones ?st = {q. \<exists>row\<in>set xs. accepts parse q row}"
    by (rule seenPhones_validateRows)
  have fnd: "find (accepts parse p) (xs @ [x]) =
      (case find (accepts parse p) xs of None \<Rightarrow> (if accepts parse p x then Some x else None)
       | Some r \<Rightarrow> Some r)"
    by (induction xs) auto
  have none_iff: "find (accepts parse p) xs = None \<longleftrightarrow> p \<notin> seenPhones ?st"
    by (auto simp: seen find_None_iff)
  show ?case
  proof (cases "rowErrors parse (seenPhones ?st) x = []")
    case True
    then obtain q where q: "canonicalPhone parse x = Some q" "q \<notin> seenPhones ?st" "\<not> badEmail x"
      by (auto simp: rowErrors_Nil_iff)
    have num: "number (leadOf parse x) = q" by (simp add: leadOf_def q)
    have v: "valid_acc (validateRows parse (xs @ [x])) = valid_acc ?st @ [leadOf parse x]"
      using True by (simp add: validateRows_snoc valid_acc_validateRow)
    show ?thesis
    proof (cases "q = p")
      case True
      then have n: "find (accepts parse p) xs = None" and a: "accepts parse p x"
        using q none_iff by (auto simp: accepts_def)
      have "filter (\<lambda>l. number l = p) (valid_acc ?st) = []"
        using snoc n by simp
      then have "filter (\<lambda>l. number l = p) (valid_acc (validateRows parse (xs @ [x])))
            = [leadOf parse x]"
        unfolding v using num True by simp
      moreover have "find (accepts parse p) (xs @ [x]) = Some x"
        unfolding fnd using n a by simp
      ultimately show ?thesis by simp
    next
      case False
      then have a: "\<not> accepts parse p x" using q by (auto simp: accepts_def)
      have "filter (\<lambda>l. number l = p) (valid_acc (validateRows parse (xs @ [x])))
            = filter (\<lambda>l. number l = p) (valid_acc ?st)"
        unfolding v using num False by simp
      moreover have "find (accepts parse p) (xs @ [x]) = find (accepts parse p) xs"
        unfolding fnd using a by (cases "find (accepts parse p) xs") simp_all
      ultimately show ?thesis using snoc by simp
    qed
  next
    case False
    have v: "valid_acc (validateRows parse (xs @ [x])) = valid_acc ?st"
      using False by (simp add: validateRows_snoc valid_acc_validateRow)
    have "accepts parse p x \<Longrightarrow> find (accepts parse p) xs \<noteq> None"
      using False none_iff by (auto simp: accepts_def rowErrors_Nil_iff)
    then have "find (accepts parse p) (xs @ [x]) = find (accepts parse p) xs"
      unfolding fnd by (cases "find (accepts parse p) xs") auto
    then show ?thesis using snoc v by simp
  qed
qed

lemma validateAndCleanData_fields:
  "valid (validateAndCleanData parse rows) = valid_acc (validateRows parse rows)"
  "invalid (validateAndCleanData parse rows) = invalid_acc (validateRows parse rows)"
  "duplicates (validateAndCleanData parse rows) = duplicates_acc (validateRows parse rows)"
  "summary (validateAndCleanData parse rows) =
     \<lparr>totalRows = length rows, validRows = length (valid_acc (validateRows parse rows)),
      invalidRows = length (invalid_acc (validateRows parse rows)),
      duplicateRows = duplicates_acc (validateRows parse rows)\<rparr>"
  by (simp_all add: validateAndCleanData_def Let_def)

text \<open>
  Claim C9. \<open>validateAndCleanData\<close> partitions its input. In the summary,
  \<open>totalRows\<close> is the input length, \<open>validRows\<close> and \<open>invalidRows\<close> are the lengths of
  the two lists and add up to \<open>totalRows\<close>, and \<open>duplicateRows \<le> invalidRows\<close>. Row by
  row: processing row \<open>k\<close> after the first \<open>k\<close> rows appends exactly one element to
  exactly one list, an Invalid Row Record with the row's index, data and errors when the
  row has an error, a Validated Lead when it has none.
\<close>
theorem validateAndCleanData_partitions:
  "totalRows (summary (validateAndCleanData parse rows)) = length rows
   \<and> validRows (summary (validateAndCleanData parse rows))
       = length (valid (validateAndCleanData parse rows))
   \<and> invalidRows (summary (validateAndCleanData parse rows))
       = length (invalid (validateAndCleanData parse rows))
   \<and> validRows (summary (validateAndCleanData parse rows))
       + invalidRows (summary (validateAndCleanData parse rows))
       = totalRows (summary (validateAndCleanData parse rows))
   \<and> duplicateRows (summary (validateAndCleanData parse rows))
       \<le> invalidRows (summary (validateAndCleanData parse rows))
   \<and> (\<forall>k<length rows.
        (rowErrors parse (seenPhones (validateRows parse (take k rows))) (rows ! k) \<noteq> []
         \<and> valid (validateAndCleanData parse (take (Suc k) rows))
             = valid (validateAndCleanData parse (take k rows))
         \<and> invalid (validateAndCleanData parse (take (Suc k) rows))
             = invalid (validateAndCleanData parse (take k rows))
               @ [\<lparr>rowIndex = row_rowIndex (rows ! k), data = row_originalData (rows ! k),
                   errors = rowErrors parse (seenPhones (validateRows parse (take k rows)))
                              (rows ! k)\<rparr>])
        \<or>
        (rowErrors parse (seenPhones (validateRows parse (take k rows))) (rows ! k) = []
         \<and> valid (validateAndCleanData parse (take (Suc k) rows))
             = valid (validateAndCleanData parse (take k rows)) @ [leadOf parse (rows ! k)]
         \<and> invalid (validateAndCleanData parse (take (Suc k) rows))
             = invalid (validateAndCleanData parse (take k rows))))"
proof -
  have step: "validateRows parse (take (Suc k) rows)
      = validateRow parse (validateRows parse (take k rows)) (rows ! k)" if "k < length rows" for k
    using that by (simp add: take_Suc_conv_app_nth validateRows_snoc)
  show ?thesis
    using counts_validateRows[of parse rows]
    by (simp add: validateAndCleanData_fields step valid_acc_validateRow invalid_acc_validateRow)
qed

theorem validateAndCleanData_partitions_witness:
  "validRows (summary (validateAndCleanData sample_parser
      [\<lparr>row_rowIndex = 1, row_phone = ''+12025550123'', row_name = ''Ann'',
        row_email = ''ann-at-example'', row_originalData = ()\<rparr>,
       \<lparr>row_rowIndex = 2, row_phone = ''202-555-0123'', row_name = ''Bob'',
        row_email = '''', row_originalData = ()\<rparr>]))
   + invalidRows (summary (validateAndCleanData sample_parser
      [\<lparr>row_rowIndex = 1, row_phone = ''+12025550123'', row_name = ''Ann'',
        row_email = ''ann-at-example'', row_originalData = ()\<rparr>,
       \<lparr>row_rowIndex = 2, row_phone = ''202-555-0123'', row_name = ''Bob'',
        row_email = '''', row_originalData = ()\<rparr>])) = 2
   \<and> invalid (validateAndCleanData sample_parser
      [\<lparr>row_rowIndex = 1, row_phone = ''+12025550123'', row_name = ''Ann'',
        row_email = ''ann-at-example'', row_originalData = ()\<rparr>])
     = [\<lparr>rowIndex = 1, data = (), errors = [''Invalid email format'']\<rparr>]"
proof -
  let ?r1 = "\<lparr>row_rowIndex = 1, row_phone = ''+12025550123'', row_name = ''Ann'',
        row_email = ''ann-at-example'', row_originalData = ()\<rparr>"
  let ?r2 = "\<lparr>row_rowIndex = 2, row_phone = ''202-555-0123'', row_name = ''Bob'',
        row_email = '''', row_originalData = ()\<rparr>"
  note P = validateAndCleanData_partitions[of sample_parser "[?r1, ?r2]"]
  from P have total: "totalRows (summary (validateAndCleanData sample_parser [?r1, ?r2])) = 2"
    by simp
  from P have sum: "validRows (summary (validateAndCleanData sample_parser [?r1, ?r2]))
       + invalidRows (summary (validateAndCleanData sample_parser [?r1, ?r2]))
       = totalRows (summary (validateAndCleanData sample_parser [?r1, ?r2]))"
    by (elim conjE)
  have e: "rowErrors sample_parser (seenPhones (validateRows sample_parser [])) ?r1
      = [''Invalid email format'']"
    by code_simp
  have e0: "invalid (validateAndCleanData sample_parser ([] :: unit ExtractedRow list)) = []"
    by code_simp
  from P have "\<forall>k<length [?r1, ?r2].
        (rowErrors sample_parser (seenPhones (validateRows sample_parser (take k [?r1, ?r2])))
            ([?r1, ?r2] ! k) \<noteq> []
         \<and> valid (validateAndCleanData sample_parser (take (Suc k) [?r1, ?r2]))
             = valid (validateAndCleanData sample_parser (take k [?r1, ?r2]))
         \<and> invalid (validateAndCleanData sample_parser (take (Suc k) [?r1, ?r2]))
             = invalid (validateAndCleanData sample_parser (take k [?r1, ?r2]))
               @ [\<lparr>rowIndex = row_rowIndex ([?r1, ?r2] ! k),
                   data = row_originalData ([?r1, ?r2] ! k),
                   errors = rowErrors sample_parser
                      (seenPhones (validateRows sample_parser (take k [?r1, ?r2])))
                              ([?r1, ?r2] ! k)\<rparr>])
        \<or>
        (rowErrors sample_parser (seenPhones (validateRows sample_parser (take k [?r1, ?r2])))
            ([?r1, ?r2] ! k) = []
         \<and> valid (validateAndCleanData sample_parser (take (Suc k) [?r1, ?r2]))
             = valid (validateAndCleanData sample_parser (take k [?r1, ?r2]))
                @ [leadOf sample_parser ([?r1, ?r2] ! k)]
         \<and> invalid (validateAndCleanData sample_parser (take (Suc k) [?r1, ?r2]))
             = invalid (validateAndCleanData sample_parser (take k [?r1, ?r2])))"
    by (elim conjE)
  then have "invalid (validateAndCleanData sample_parser [?r1])
     = [\<lparr>rowIndex = 1, data = (), errors = [''Invalid email format'']\<rparr>]"
    using e e0 by (auto dest!: spec[of _ 0])
  with total sum show ?thesis by simp
qed

text \<open>
  Claim C2 says that a row with a good, unseen phone and a malformed email still becomes a
  Validated Lead. On the code it does not: the email error is pushed to \<open>errors\<close>, and a
  row with any error goes to the invalid list. Row 1 below has canonical phone
  \<open>+12025550123\<close>, nothing has been seen before it, its email fails the check, and the
  result has no Validated Lead and one Invalid Row Record.
\<close>
theorem bad_email_row_counterexample:
  "canonicalPhone sample_parser
     \<lparr>row_rowIndex = 1, row_phone = ''+12025550123'', row_name = ''Ann'',
       row_email = ''ann-at-example'', row_originalData = ()\<rparr> = Some ''+12025550123''
   \<and> ''+12025550123'' \<notin> seenPhones (validateRows sample_parser ([] :: unit ExtractedRow list))
   \<and> badEmail \<lparr>row_rowIndex = 1, row_phone = ''+12025550123'', row_name = ''Ann'',
       row_email = ''ann-at-example'', row_originalData = ()\<rparr>
   \<and> validateAndCleanData sample_parser
     [\<lparr>row_rowIndex = 1, row_phone = ''+12025550123'', row_name = ''Ann'',
       row_email = ''ann-at-example'', row_originalData = ()\<rparr>]
     = \<lparr>valid = [],
        invalid = [\<lparr>rowIndex = 1, data = (), errors = [''Invalid email format'']\<rparr>],
        duplicates = 0,
        summary = \<lparr>totalRows = 1, validRows = 0, invalidRows = 1, duplicateRows = 0\<rparr>\<rparr>"
  by code_simp

text \<open>
  Claim C2, amended. For a row whose phone normalizes to a canonical value not seen before
  and whose email fails the format check, the errors are exactly \<open>Invalid email format\<close>;
  the row becomes an Invalid Row Record with its index, its original data and that error,
  and no Validated Lead: the valid list, the duplicate counter and the seen-set stay as
  they were, and the valid list of the whole run is the one the run gives without the row.
\<close>
theorem bad_email_row_is_invalid:
  assumes c: "canonicalPhone parse row = Some p"
    and ns: "p \<notin> seenPhones (validateRows parse pre)"
    and b: "badEmail row"
  shows "rowErrors parse (seenPhones (validateRows parse pre)) row = [''Invalid email format'']
     \<and> valid (validateAndCleanData parse (pre @ [row])) = valid (validateAndCleanData parse pre)
     \<and> invalid (validateAndCleanData parse (pre @ [row]))
         = invalid (validateAndCleanData parse pre)
           @ [\<lparr>rowIndex = row_rowIndex row, data = row_originalData row,
               errors = [''Invalid email format'']\<rparr>]
     \<and> duplicates (validateAndCleanData parse (pre @ [row]))
         = duplicates (validateAndCleanData parse pre)
     \<and> seenPhones (validateRows parse (pre @ [row])) = seenPhones (validateRows parse pre)
     \<and> valid (validateAndCleanData parse (pre @ row # post))
         = valid (validateAndCleanData parse (pre @ post))
     \<and> \<lparr>rowIndex = row_rowIndex row, data = row_originalData row,
          errors = [''Invalid email format'']\<rparr>
         \<in> set (invalid (validateAndCleanData parse (pre @ row # post)))"
proof -
  let ?st = "validateRows parse pre"
  let ?rec = "\<lparr>rowIndex = row_rowIndex row, data = row_originalData row,
          errors = [''Invalid email format'']\<rparr>"
  have errs: "rowErrors parse (seenPhones ?st) row = [''Invalid email format'']"
    using ns b by (simp add: rowErrors_canonical[OF c])
  then have ne: "rowErrors parse (seenPhones ?st) row \<noteq> []" by simp
  have nd: "\<not> isDuplicate (formatPhoneNumber parse (row_phone row)) (seenPhones ?st)"
    using c ns by (simp add: canonicalPhone_Some isDuplicate_def)
  have st: "validateRows parse (pre @ [row]) = ?st\<lparr>invalid_acc := invalid_acc ?st @ [?rec]\<rparr>"
    using nd by (simp add: validateRows_snoc validateRow_invalid[OF ne] errs)
  have split: "validateRows parse (pre @ row # post)
      = foldl (validateRow parse) (validateRows parse (pre @ [row])) post"
    by (simp add: validateRows_def)
  have same: "valid_acc (validateRows parse (pre @ row # post))
      = valid_acc (validateRows parse (pre @ post))"
    using foldl_validateRow_valid_seen[of "validateRows parse (pre @ [row])" ?st parse post]
    by (simp add: split st) (simp add: validateRows_def)
  from invalid_acc_foldl_prefix[of parse "validateRows parse (pre @ [row])" post]
  obtain zs where "invalid_acc (validateRows parse (pre @ row # post))
      = (invalid_acc ?st @ [?rec]) @ zs"
    by (auto simp: split st)
  then have mem: "?rec \<in> set (invalid_acc (validateRows parse (pre @ row # post)))" by simp
  show ?thesis
    using errs same mem by (simp add: validateAndCleanData_fields st)
qed

theorem bad_email_row_is_invalid_witness:
  "valid (validateAndCleanData sample_parser
      ([] @ \<lparr>row_rowIndex = 1, row_phone = ''+12025550123'', row_name = ''Ann'',
              row_email = ''ann-at-example'', row_originalData = ()\<rparr>
          # [\<lparr>row_rowIndex = 2, row_phone = ''202-555-0123'', row_name = ''Bob'',
              row_email = '''', row_originalData = ()\<rparr>]))
   = valid (validateAndCleanData sample_parser
      ([] @ [\<lparr>row_rowIndex = 2, row_phone = ''202-555-0123'', row_name = ''Bob'',
              row_email = '''', row_originalData = ()\<rparr>]))
   \<and> \<lparr>rowIndex = 1, data = (), errors = [''Invalid email format'']\<rparr>
       \<in> set (invalid (validateAndCleanData sample_parser
      ([] @ \<lparr>row_rowIndex = 1, row_phone = ''+12025550123'', row_name = ''Ann'',
              row_email = ''ann-at-example'', row_originalData = ()\<rparr>
          # [\<lparr>row_rowIndex = 2, row_phone = ''202-555-0123'', row_name = ''Bob'',
              row_email = '''', row_originalData = ()\<rparr>])))"
proof -
  let ?r1 = "\<lparr>row_rowIndex = 1, row_phone = ''+12025550123'', row_name = ''Ann'',
        row_email = ''ann-at-example'', row_originalData = ()\<rparr>"
  have c: "canonicalPhone sample_parser ?r1 = Some ''+12025550123''" by code_simp
  have ns: "''+12025550123'' \<notin> seenPhones (validateRows sample_parser ([] :: unit ExtractedRow list))"
    by code_simp
  have b: "badEmail ?r1" by code_simp
  show ?thesis
    using bad_email_row_is_invalid[OF c ns b,
      of "[\<lparr>row_rowIndex = 2, row_phone = ''202-555-0123'', row_name = ''Bob'',
              row_email = '''', row_originalData = ()\<rparr>]"]
    by simp
qed

text \<open>
  Claim C3 says that of the rows sharing a canonical phone the first in input order is the
  Validated Lead and each later one is a duplicate. Rows 1 and 2 below share
  \<open>+12025550123\<close>; row 1 has a malformed email, so it is rejected without entering the
  seen-set, and row 2 becomes the Validated Lead and carries no duplicate error.
\<close>
theorem first_occurrence_counterexample:
  "canonicalPhone sample_parser
     \<lparr>row_rowIndex = 1, row_phone = ''+12025550123'', row_name = ''Ann'',
       row_email = ''ann-at-example'', row_originalData = ()\<rparr> = Some ''+12025550123''
   \<and> canonicalPhone sample_parser
     \<lparr>row_rowIndex = 2, row_phone = ''202-555-0123'', row_name = ''Bob'',
       row_email = '''', row_originalData = ()\<rparr> = Some ''+12025550123''
   \<and> validateAndCleanData sample_parser
     [\<lparr>row_rowIndex = 1, row_phone = ''+12025550123'', row_name = ''Ann'',
       row_email = ''ann-at-example'', row_originalData = ()\<rparr>,
      \<lparr>row_rowIndex = 2, row_phone = ''202-555-0123'', row_name = ''Bob'',
       row_email = '''', row_originalData = ()\<rparr>]
     = \<lparr>valid = [\<lparr>name = ''Bob'', number = ''+12025550123'', email = None\<rparr>],
        invalid = [\<lparr>rowIndex = 1, data = (), errors = [''Invalid email format'']\<rparr>],
        duplicates = 0,
        summary = \<lparr>totalRows = 2, validRows = 1, invalidRows = 1, duplicateRows = 0\<rparr>\<rparr>"
  by code_simp

text \<open>
  Claim C3, amended. For every row list and every canonical phone \<open>p\<close>: the Validated
  Leads with number \<open>p\<close> are exactly one lead, that of the first row in input order that
  has canonical phone \<open>p\<close> and no email-format error, and none when there is no such
  row; and every row with canonical phone \<open>p\<close> that comes after a row with canonical
  phone \<open>p\<close> and no email-format error gets the error \<open>Duplicate phone number\<close>, adds
  no Validated Lead, and is in the invalid list with its index, data and errors.
\<close>
theorem first_accepted_row_wins:
  "filter (\<lambda>l. number l = p) (valid (validateAndCleanData parse rows))
     = (case find (accepts parse p) rows of None \<Rightarrow> [] | Some row \<Rightarrow> [leadOf parse row])
   \<and> (\<forall>i j. i < j \<and> j < length rows \<and> accepts parse p (rows ! i)
              \<and> canonicalPhone parse (rows ! j) = Some p \<longrightarrow>
         ''Duplicate phone number''
            \<in> set (rowErrors parse (seenPhones (validateRows parse (take j rows))) (rows ! j))
         \<and> valid (validateAndCleanData parse (take (Suc j) rows))
             = valid (validateAndCleanData parse (take j rows))
         \<and> invalid (validateAndCleanData parse (take (Suc j) rows))
             = invalid (validateAndCleanData parse (take j rows))
               @ [\<lparr>rowIndex = row_rowIndex (rows ! j), data = row_originalData (rows ! j),
                   errors = rowErrors parse (seenPhones (validateRows parse (take j rows)))
                              (rows ! j)\<rparr>]
         \<and> \<lparr>rowIndex = row_rowIndex (rows ! j), data = row_originalData (rows ! j),
              errors = rowErrors parse (seenPhones (validateRows parse (take j rows)))
                         (rows ! j)\<rparr>
             \<in> set (invalid (validateAndCleanData parse rows)))"
proof (intro conjI allI impI)
  show "filter (\<lambda>l. number l = p) (valid (validateAndCleanData parse rows))
     = (case find (accepts parse p) rows of None \<Rightarrow> [] | Some row \<Rightarrow> [leadOf parse row])"
    by (simp add: validateAndCleanData_fields valid_filter_validateRows)
next
  fix i j
  assume h: "i < j \<and> j < length rows \<and> accepts parse p (rows ! i)
              \<and> canonicalPhone parse (rows ! j) = Some p"
  let ?st = "validateRows parse (take j rows)"
  let ?errs = "rowErrors parse (seenPhones ?st) (rows ! j)"
  let ?rec = "\<lparr>rowIndex = row_rowIndex (rows ! j), data = row_originalData (rows ! j),
              errors = ?errs\<rparr>"
  from h have "rows ! i \<in> set (take j rows)"
    by (metis in_set_conv_nth length_take min_less_iff_conj nth_take order_less_trans)
  with h have seen: "p \<in> seenPhones ?st"
    by (auto simp: seenPhones_validateRows)
  with h have errs: "?errs = ''Duplicate phone number''
        # (if badEmail (rows ! j) then [''Invalid email format''] else [])"
    by (simp add: rowErrors_canonical)
  then have ne: "?errs \<noteq> []" by simp
  have step: "validateRows parse (take (Suc j) rows) = validateRow parse ?st (rows ! j)"
    using h by (simp add: take_Suc_conv_app_nth validateRows_snoc)
  have inv: "invalid_acc (validateRows parse (take (Suc j) rows)) = invalid_acc ?st @ [?rec]"
    and val: "valid_acc (validateRows parse (take (Suc j) rows)) = valid_acc ?st"
    using ne by (simp_all add: step invalid_acc_validateRow valid_acc_validateRow)
  from invalid_acc_validateRows_prefix[of parse "take (Suc j) rows" "drop (Suc j) rows"]
  obtain zs where "invalid_acc (validateRows parse rows) = (invalid_acc ?st @ [?rec]) @ zs"
    by (auto simp: inv)
  then have mem: "?rec \<in> set (invalid_acc (validateRows parse rows))" by simp
  show "''Duplicate phone number'' \<in> set ?errs" by (simp add: errs)
  show "valid (validateAndCleanData parse (take (Suc j) rows))
             = valid (validateAndCleanData parse (take j rows))"
    by (simp add: validateAndCleanData_fields val)
  show "invalid (validateAndCleanData parse (take (Suc j) rows))
             = invalid (validateAndCleanData parse (take j rows)) @ [?rec]"
    by (simp add: validateAndCleanData_fields inv)
  show "?rec \<in> set (invalid (validateAndCleanData parse rows))"
    using mem by (simp add: validateAndCleanData_fields)
qed

theorem first_accepted_row_wins_witness:
  "filter (\<lambda>l. number l = ''+12025550123'')
     (valid (validateAndCleanData sample_parser
       [\<lparr>row_rowIndex = 1, row_phone = ''+12025550123'', row_name = ''Ann'',
         row_email = ''ann-at-example'', row_originalData = ()\<rparr>,
        \<lparr>row_rowIndex = 2, row_phone = ''202-555-0123'', row_name = ''Bob'',
         row_email = '''', row_originalData = ()\<rparr>,
        \<lparr>row_rowIndex = 3, row_phone = ''(202) 555-0123'', row_name = ''Cy'',
         row_email = ''cy@example.org'', row_originalData = ()\<rparr>]))
     = [\<lparr>name = ''Bob'', number = ''+12025550123'', email = None\<rparr>]
   \<and> \<lparr>rowIndex = 3, data = (), errors = [''Duplicate phone number'']\<rparr>
      \<in> set (invalid (validateAndCleanData sample_parser
       [\<lparr>row_rowIndex = 1, row_phone = ''+12025550123'', row_name = ''Ann'',
         row_email = ''ann-at-example'', row_originalData = ()\<rparr>,
        \<lparr>row_rowIndex = 2, row_phone = ''202-555-0123'', row_name = ''Bob'',
         row_email = '''', row_originalData = ()\<rparr>,
        \<lparr>row_rowIndex = 3, row_phone = ''(202) 555-0123'', row_name = ''Cy'',
         row_email = ''cy@example.org'', row_originalData = ()\<rparr>]))"
proof -
  let ?r1 = "\<lparr>row_rowIndex = 1, row_phone = ''+12025550123'', row_name = ''Ann'',
         row_email = ''ann-at-example'', row_originalData = ()\<rparr>"
  let ?r2 = "\<lparr>row_rowIndex = 2, row_phone = ''202-555-0123'', row_name = ''Bob'',
         row_email = '''', row_originalData = ()\<rparr>"
  let ?r3 = "\<lparr>row_rowIndex = 3, row_phone = ''(202) 555-0123'', row_name = ''Cy'',
         row_email = ''cy@example.org'', row_originalData = ()\<rparr>"
  let ?p = "''+12025550123''"
  note W = first_accepted_row_wins[of ?p sample_parser "[?r1, ?r2, ?r3]"]
  have f: "(case find (accepts sample_parser ?p) [?r1, ?r2, ?r3] of None \<Rightarrow> []
            | Some row \<Rightarrow> [leadOf sample_parser row])
           = [\<lparr>name = ''Bob'', number = ''+12025550123'', email = None\<rparr>]"
    by code_simp
  have a: "accepts sample_parser ?p ([?r1, ?r2, ?r3] ! 1)" by code_simp
  have c: "canonicalPhone sample_parser ([?r1, ?r2, ?r3] ! 2) = Some ?p" by code_simp
  have e: "rowErrors sample_parser (seenPhones (validateRows sample_parser (take 2 [?r1, ?r2, ?r3])))
             ([?r1, ?r2, ?r3] ! 2) = [''Duplicate phone number'']"
    by code_simp
  from W have one: "filter (\<lambda>l. number l = ?p)
       (valid (validateAndCleanData sample_parser [?r1, ?r2, ?r3]))
     = [\<lparr>name = ''Bob'', number = ''+12025550123'', email = None\<rparr>]"
    unfolding f by (rule conjunct1)
  from W have "(1::nat) < 2 \<and> 2 < length [?r1, ?r2, ?r3]
        \<and> accepts sample_parser ?p ([?r1, ?r2, ?r3] ! 1)
        \<and> canonicalPhone sample_parser ([?r1, ?r2, ?r3] ! 2) = Some ?p \<longrightarrow>
       \<lparr>rowIndex = row_rowIndex ([?r1, ?r2, ?r3] ! 2),
        data = row_originalData ([?r1, ?r2, ?r3] ! 2),
        errors = rowErrors sample_parser
           (seenPhones (validateRows sample_parser (take 2 [?r1, ?r2, ?r3])))
           ([?r1, ?r2, ?r3] ! 2)\<rparr>
       \<in> set (invalid (validateAndCleanData sample_parser [?r1, ?r2, ?r3]))"
    by blast
  with a c have "\<lparr>rowIndex = row_rowIndex ([?r1, ?r2, ?r3] ! 2),
        data = row_originalData ([?r1, ?r2, ?r3] ! 2),
        errors = [''Duplicate phone number'']\<rparr>
       \<in> set (invalid (validateAndCleanData sample_parser [?r1, ?r2, ?r3]))"
    unfolding e by simp
  then have two: "\<lparr>rowIndex = 3, data = (), errors = [''Duplicate phone number'']\<rparr>
       \<in> set (invalid (validateAndCleanData sample_parser [?r1, ?r2, ?r3]))"
    by simp
  from one two show ?thesis by (rule conjI)
qed

section \<open>Properties of the Column Detector\<close>

lemma foldl_add_sum_list:
  "foldl (\<lambda>s p. s + f p) a ps = a + sum_list (map f ps)" for a :: int
  by (induction ps arbitrary: a) (simp_all add: add.assoc)

lemma header_score_sum:
  "header_score n patterns = (\<Sum>p\<leftarrow>patterns. pattern_points n p)"
  by (simp add: header_score_def foldl_add_sum_list)

lemma pattern_points_empty: "p \<noteq> [] \<Longrightarrow> pattern_points [] p = 0"
  by (simp add: pattern_points_def)

lemma score_of_empty_header:
  assumes "[] \<notin> set patterns" and "normalize_header h = []"
  shows "score_of patterns h = 0"
proof -
  have "pattern_points [] p = 0" if "p \<in> set patterns" for p
  proof -
    from that assms(1) have "p \<noteq> []" by metis
    then show ?thesis by (rule pattern_points_empty)
  qed
  then have "\<forall>p\<in>set patterns. pattern_points [] p = 0" by blast
  then have "(\<Sum>p\<leftarrow>patterns. pattern_points [] p) = 0"
    by (induction patterns) auto
  then show ?thesis by (simp add: score_of_def header_score_sum assms(2))
qed

lemma positive_score_nonempty:
  "[] \<notin> set patterns \<Longrightarrow> 0 < score_of patterns h \<Longrightarrow> h \<noteq> []"
  using score_of_empty_header[of patterns h] by (auto simp: normalize_header_def)

lemma collect_scores_foldl:
  "foldl (\<lambda>scores header.
              let s = header_score (normalize_header header) patterns
              in if s > 0 then scores @ [\<lparr>column = header, score = s\<rparr>] else scores)
       acc headers
   = acc @ map (\<lambda>h. \<lparr>column = h, score = score_of patterns h\<rparr>)
             (filter (\<lambda>h. 0 < score_of patterns h) headers)"
  by (induction headers arbitrary: acc) (simp_all add: Let_def score_of_def)

lemma collect_scores_eq:
  "collect_scores headers patterns
   = map (\<lambda>h. \<lparr>column = h, score = score_of patterns h\<rparr>)
       (filter (\<lambda>h. 0 < score_of patterns h) headers)"
  unfolding collect_scores_def by (simp add: collect_scores_foldl)

lemma js_slice_1_4: "js_slice xs 1 4 = take 3 (drop 1 xs)"
  by (auto simp: js_slice_def Let_def min_def)

lemma sorted_scores_props:
  fixes headers patterns
  defines "ps \<equiv> filter (\<lambda>h. 0 < score_of patterns h) headers"
  defines "cols \<equiv> map column (sort_key (\<lambda>s. - score s) (collect_scores headers patterns))"
  shows "mset cols = mset ps"
    and "sorted_wrt (\<lambda>a b. score_of patterns b \<le> score_of patterns a) cols"
    and "map score (sort_key (\<lambda>s. - score s) (collect_scores headers patterns))
         = map (score_of patterns) cols"
proof -
  let ?xs = "sort_key (\<lambda>s. - score s) (collect_scores headers patterns)"
  have el: "\<forall>e\<in>set ?xs. score e = score_of patterns (column e)"
    by (auto simp: collect_scores_eq)
  have "mset ?xs = mset (collect_scores headers patterns)" by simp
  then have "image_mset column (mset ?xs) = image_mset column (mset (collect_scores headers patterns))"
    by simp
  then show "mset cols = mset ps"
    by (simp add: cols_def ps_def collect_scores_eq multiset.map_comp o_def)
  show sc: "map score ?xs = map (score_of patterns) cols"
    using el by (simp add: cols_def)
  have "sorted (map (\<lambda>s. - score s) ?xs)" by (rule sorted_sort_key)
  then have "sorted_wrt (\<lambda>a b. - score a \<le> - score b) ?xs"
    by (simp add: sorted_map)
  then have "sorted_wrt (\<lambda>a b. score b \<le> score a) ?xs" by simp
  then have "sorted_wrt (\<lambda>a b. b \<le> a) (map score ?xs)" by (simp add: sorted_wrt_map)
  then have "sorted_wrt (\<lambda>a b. b \<le> a) (map (score_of patterns) cols)" by (simp only: sc)
  then show "sorted_wrt (\<lambda>a b. score_of patterns b \<le> score_of patterns a) cols"
    by (simp add: sorted_wrt_map)
qed

lemma detectColumn_cols:
  fixes headers patterns
  defines "cols \<equiv> map column (sort_key (\<lambda>s. - score s) (collect_scores headers patterns))"
  assumes ne: "[] \<notin> set patterns"
  shows "detectColumn headers patterns =
     (case cols of
        [] \<Rightarrow> \<lparr>best_column = None, confidence = 0, alternates = []\<rparr>
      | b # rest \<Rightarrow> \<lparr>best_column = Some b,
                     confidence = min (of_int (score_of patterns b) / 10) 1,
                     alternates = take 3 rest\<rparr>)"
proof -
  let ?xs = "sort_key (\<lambda>s. - score s) (collect_scores headers patterns)"
  show ?thesis
  proof (cases ?xs)
    case Nil
    then show ?thesis by (simp add: detectColumn_def cols_def js_slice_1_4)
  next
    case (Cons e es)
    then have "e \<in> set ?xs" by simp
    then have "e \<in> set (collect_scores headers patterns)" by simp
    then have e: "score e = score_of patterns (column e)" "0 < score_of patterns (column e)"
      by (auto simp: collect_scores_eq)
    then have "column e \<noteq> []" using positive_score_nonempty[OF ne] by blast
    then show ?thesis using Cons e
      by (simp add: detectColumn_def cols_def js_slice_1_4 take_map)
  qed
qed

lemma take_drop_sorted_split:
  assumes "sorted_wrt R xs" and "mset xs = M"
  shows "mset (take n xs) \<subseteq># M"
    and "\<forall>h \<in># M - mset (take n xs). \<forall>a \<in> set (take n xs). R a h"
proof -
  have split: "mset (take n xs) + mset (drop n xs) = M"
    using assms(2) by (metis append_take_drop_id mset_append)
  then show "mset (take n xs) \<subseteq># M" by (metis mset_subset_eq_add_left)
  from split have rest: "M - mset (take n xs) = mset (drop n xs)"
    by (metis add_diff_cancel_left')
  from assms(1) have "sorted_wrt R (take n xs @ drop n xs)" by simp
  then have "\<forall>a\<in>set (take n xs). \<forall>h\<in>set (drop n xs). R a h"
    unfolding sorted_wrt_append by blast
  then show "\<forall>h \<in># M - mset (take n xs). \<forall>a \<in> set (take n xs). R a h"
    unfolding rest by auto
qed

lemma field_patterns_nonempty: "[] \<notin> set (field_patterns f)"
  by (cases f) (simp_all add: field_patterns_def phonePatterns_def namePatterns_def
      emailPatterns_def)

text \<open>
  Claim C7. For each semantic field, the score of a header is the sum over the field's
  patterns of 10 when the normalized header equals the pattern, else 5 when it contains the
  pattern, else 2 when the pattern contains it and it is longer than 3 characters. When no
  header scores positively the result is no column, confidence 0 and no alternates.
  Otherwise the detected column is a header of highest score, that score is positive, the
  confidence is \<open>min (score / 10) 1\<close>, and the alternates are the next at most three
  positive-scoring headers in descending order of score: every positive-scoring header
  left out scores no more than each one listed.
\<close>
theorem detectColumn_scoring:
  "(\<forall>h. score_of (field_patterns f) h =
            (\<Sum>p\<leftarrow>field_patterns f.
               if normalize_header h = p then 10
               else if js_includes (normalize_header h) p then 5
               else if js_includes p (normalize_header h) \<and> 3 < length (normalize_header h)
                    then 2
               else 0))
       \<and> ((\<forall>h\<in>set headers. score_of (field_patterns f) h \<le> 0) \<longrightarrow>
            detectColumn headers (field_patterns f)
              = \<lparr>best_column = None, confidence = 0, alternates = []\<rparr>)
       \<and> ((\<exists>h\<in>set headers. 0 < score_of (field_patterns f) h) \<longrightarrow>
            (\<exists>best.
               best_column (detectColumn headers (field_patterns f)) = Some best
             \<and> best \<in> set headers \<and> 0 < score_of (field_patterns f) best
             \<and> (\<forall>h\<in>set headers. score_of (field_patterns f) h \<le> score_of (field_patterns f) best)
             \<and> confidence (detectColumn headers (field_patterns f))
                 = min (of_int (score_of (field_patterns f) best) / 10) 1
             \<and> length (alternates (detectColumn headers (field_patterns f)))
                 = min 3 (length (filter (\<lambda>h. 0 < score_of (field_patterns f) h) headers) - 1)
             \<and> sorted_wrt (\<lambda>a b. score_of (field_patterns f) b \<le> score_of (field_patterns f) a)
                 (best # alternates (detectColumn headers (field_patterns f)))
             \<and> (\<forall>a\<in>set (alternates (detectColumn headers (field_patterns f))). 0 < score_of (field_patterns f) a)
             \<and> mset (best # alternates (detectColumn headers (field_patterns f)))
                 \<subseteq># mset (filter (\<lambda>h. 0 < score_of (field_patterns f) h) headers)
             \<and> (\<forall>h \<in># mset (filter (\<lambda>h. 0 < score_of (field_patterns f) h) headers)
                          - mset (best # alternates (detectColumn headers (field_patterns f))).
                  \<forall>a\<in>set (best # alternates (detectColumn headers (field_patterns f))).
                    score_of (field_patterns f) h \<le> score_of (field_patterns f) a)))"
proof (intro conjI allI impI)
  fix h
  show "score_of (field_patterns f) h =
            (\<Sum>p\<leftarrow>field_patterns f.
               if normalize_header h = p then 10
               else if js_includes (normalize_header h) p then 5
               else if js_includes p (normalize_header h) \<and> 3 < length (normalize_header h)
                    then 2
               else 0)"
    by (simp add: score_of_def header_score_sum pattern_points_def)
next
  define ps where "ps = filter (\<lambda>h. 0 < score_of (field_patterns f) h) headers"
  define cols where
    "cols = map column (sort_key (\<lambda>s. - score s) (collect_scores headers (field_patterns f)))"
  have m: "mset cols = mset ps"
    and srt: "sorted_wrt (\<lambda>a b. score_of (field_patterns f) b \<le> score_of (field_patterns f) a) cols"
    unfolding cols_def ps_def by (rule sorted_scores_props)+
  have d: "detectColumn headers (field_patterns f) =
     (case cols of
        [] \<Rightarrow> \<lparr>best_column = None, confidence = 0, alternates = []\<rparr>
      | b # rest \<Rightarrow> \<lparr>best_column = Some b,
                     confidence = min (of_int (score_of (field_patterns f) b) / 10) 1,
                     alternates = take 3 rest\<rparr>)"
    unfolding cols_def by (rule detectColumn_cols[OF field_patterns_nonempty])
  {
    assume "\<forall>h\<in>set headers. score_of (field_patterns f) h \<le> 0"
    then have "ps = []" by (auto simp: ps_def filter_empty_conv)
    then have "cols = []" using m by simp
    then show "detectColumn headers (field_patterns f)
              = \<lparr>best_column = None, confidence = 0, alternates = []\<rparr>"
      by (simp add: d)
  }
  {
    assume "\<exists>h\<in>set headers. 0 < score_of (field_patterns f) h"
    then have "ps \<noteq> []" by (auto simp: ps_def filter_empty_conv)
    then have "cols \<noteq> []" using m by auto
    then obtain b rest where c: "cols = b # rest" by (cases cols) auto
    let ?alts = "take 3 rest"
    have dd: "detectColumn headers (field_patterns f) =
        \<lparr>best_column = Some b, confidence = min (of_int (score_of (field_patterns f) b) / 10) 1,
         alternates = ?alts\<rparr>"
      by (simp add: d c)
    have t4: "b # ?alts = take 4 cols" by (simp add: c)
    have sets: "set cols = set ps" using m by (metis set_mset_mset)
    have bin: "b \<in> set ps" using sets c by auto
    then have b1: "b \<in> set headers" and b2: "0 < score_of (field_patterns f) b"
      by (auto simp: ps_def)
    have top: "\<forall>h\<in>set rest. score_of (field_patterns f) h \<le> score_of (field_patterns f) b"
      using srt by (simp add: c)
    have b3: "\<forall>h\<in>set headers. score_of (field_patterns f) h \<le> score_of (field_patterns f) b"
    proof
      fix h assume h: "h \<in> set headers"
      show "score_of (field_patterns f) h \<le> score_of (field_patterns f) b"
      proof (cases "0 < score_of (field_patterns f) h")
        case True
        then have "h \<in> set cols" using h sets by (simp add: ps_def)
        then show ?thesis using top c by auto
      next
        case False
        then show ?thesis using b2 by simp
      qed
    qed
    have "length cols = length ps" using m by (metis size_mset)
    then have b4: "length ?alts = min 3 (length ps - 1)" by (simp add: c)
    have b5: "sorted_wrt (\<lambda>a b. score_of (field_patterns f) b \<le> score_of (field_patterns f) a) (b # ?alts)"
      unfolding t4 using srt by (rule sorted_wrt_take)
    have "set ?alts \<subseteq> set ps" using sets c by (auto dest: in_set_takeD)
    then have b6: "\<forall>a\<in>set ?alts. 0 < score_of (field_patterns f) a" by (auto simp: ps_def)
    have b7: "mset (b # ?alts) \<subseteq># mset ps"
      unfolding t4 using srt m by (rule take_drop_sorted_split(1))
    have b8: "\<forall>h \<in># mset ps - mset (b # ?alts). \<forall>a\<in>set (b # ?alts).
                score_of (field_patterns f) h \<le> score_of (field_patterns f) a"
      unfolding t4 using srt m by (rule take_drop_sorted_split(2))
    show "\<exists>best.
               best_column (detectColumn headers (field_patterns f)) = Some best
             \<and> best \<in> set headers \<and> 0 < score_of (field_patterns f) best
             \<and> (\<forall>h\<in>set headers. score_of (field_patterns f) h \<le> score_of (field_patterns f) best)
             \<and> confidence (detectColumn headers (field_patterns f))
                 = min (of_int (score_of (field_patterns f) best) / 10) 1
             \<and> length (alternates (detectColumn headers (field_patterns f)))
                 = min 3 (length (filter (\<lambda>h. 0 < score_of (field_patterns f) h) headers) - 1)
             \<and> sorted_wrt (\<lambda>a b. score_of (field_patterns f) b \<le> score_of (field_patterns f) a)
                 (best # alternates (detectColumn headers (field_patterns f)))
             \<and> (\<forall>a\<in>set (alternates (detectColumn headers (field_patterns f))). 0 < score_of (field_patterns f) a)
             \<and> mset (best # alternates (detectColumn headers (field_patterns f)))
                 \<subseteq># mset (filter (\<lambda>h. 0 < score_of (field_patterns f) h) headers)
             \<and> (\<forall>h \<in># mset (filter (\<lambda>h. 0 < score_of (field_patterns f) h) headers)
                          - mset (best # alternates (detectColumn headers (field_patterns f))).
                  \<forall>a\<in>set (best # alternates (detectColumn headers (field_patterns f))).
                    score_of (field_patterns f) h \<le> score_of (field_patterns f) a)"
      unfolding dd ps_def[symmetric]
      apply (rule exI[of _ b])
      apply (simp only: detection.simps)
      apply (intro conjI refl b1 b2 b3 b4 b5 b6 b7 b8)
      done
  }
qed


theorem detectColumn_scoring_witness:
  "(\<exists>h\<in>set [''Phone'', ''Cell'', ''Contact No.'', ''Tel'', ''Mobile #''].
       0 < score_of (field_patterns Phone) h)
   \<and> (\<exists>best.
         best_column (detectColumn [''Phone'', ''Cell'', ''Contact No.'', ''Tel'', ''Mobile #'']
                        (field_patterns Phone)) = Some best
       \<and> best \<in> set [''Phone'', ''Cell'', ''Contact No.'', ''Tel'', ''Mobile #'']
       \<and> confidence (detectColumn [''Phone'', ''Cell'', ''Contact No.'', ''Tel'', ''Mobile #'']
                        (field_patterns Phone))
           = min (of_int (score_of (field_patterns Phone) best) / 10) 1
       \<and> length (alternates (detectColumn [''Phone'', ''Cell'', ''Contact No.'', ''Tel'', ''Mobile #'']
                        (field_patterns Phone))) = 3)"
proof -
  let ?hs = "[''Phone'', ''Cell'', ''Contact No.'', ''Tel'', ''Mobile #'']"
  have pos: "0 < score_of (field_patterns Phone) ''Phone''" by code_simp
  then have ex: "\<exists>h\<in>set ?hs. 0 < score_of (field_patterns Phone) h" by simp
  have n: "min 3 (length (filter (\<lambda>h. 0 < score_of (field_patterns Phone) h) ?hs) - 1) = 3"
    by code_simp
  from detectColumn_scoring[of Phone ?hs] ex
  obtain best where
    "best_column (detectColumn ?hs (field_patterns Phone)) = Some best"
    "best \<in> set ?hs"
    "confidence (detectColumn ?hs (field_patterns Phone))
       = min (of_int (score_of (field_patterns Phone) best) / 10) 1"
    "length (alternates (detectColumn ?hs (field_patterns Phone)))
       = min 3 (length (filter (\<lambda>h. 0 < score_of (field_patterns Phone) h) ?hs) - 1)"
    by blast
  then show ?thesis using ex unfolding n by blast
qed

section \<open>Properties of the Chunk Scheduler\<close>

lemma chunk_index_less:
  "0 < c \<Longrightarrow> int j * c < int n \<longleftrightarrow> j < chunk_count n c"
proof -
  assume c: "0 < c"
  have "int j * c = int (j * nat c)" using c by simp
  then have "int j * c < int n \<longleftrightarrow> j * nat c < n" by (simp only: of_nat_less_iff)
  also have "\<dots> \<longleftrightarrow> j < chunk_count n c"
    using ceil_div_less[of "nat c" j n] c by (simp add: chunk_count_def)
  finally show ?thesis .
qed

lemma js_slice_chunk_at:
  "0 < c \<Longrightarrow> js_slice dat (int j * c) (int j * c + c) = chunk_at dat c j"
  using js_slice_chunk[of "int j * c" c dat] by (simp add: chunk_at_def nat_mult_distrib)

lemma processInChunks_loop_pos:
  assumes c: "0 < chunkSize opts"
  shows "processInChunks_loop opts dat processor (int j * chunkSize opts) st =
     Some (fst st @ concat (map (\<lambda>k. processor (chunk_at dat (chunkSize opts) k))
                              [j ..< chunk_count (length dat) (chunkSize opts)]),
           snd st @ concat (map (chunk_events opts dat)
                              [j ..< chunk_count (length dat) (chunkSize opts)]))"
proof (induction "chunk_count (length dat) (chunkSize opts) - j" arbitrary: j st)
  case 0
  then have "\<not> j < chunk_count (length dat) (chunkSize opts)" by simp
  then have "\<not> int j * chunkSize opts < int (length dat)"
    using chunk_index_less[OF c] by blast
  then show ?case using 0 by (subst processInChunks_loop.simps) simp
next
  case (Suc d)
  then have lt: "j < chunk_count (length dat) (chunkSize opts)" by simp
  then have i: "int j * chunkSize opts < int (length dat)"
    using chunk_index_less[OF c] by blast
  have nxt: "int j * chunkSize opts + chunkSize opts = int (Suc j) * chunkSize opts"
    by (simp add: algebra_simps)
  let ?st = "(fst st @ processor (chunk_at dat (chunkSize opts) j),
              snd st @ chunk_events opts dat j)"
  have "processInChunks_loop opts dat processor (int j * chunkSize opts) st =
        processInChunks_loop opts dat processor (int (Suc j) * chunkSize opts) ?st"
    apply (subst processInChunks_loop.simps)
    apply (simp only: i if_True js_slice_chunk_at[OF c] chunk_events_def)
    apply (simp only: nxt append_assoc)
    done
  also have "\<dots> = Some (fst ?st @ concat (map (\<lambda>k. processor (chunk_at dat (chunkSize opts) k))
                              [Suc j ..< chunk_count (length dat) (chunkSize opts)]),
           snd ?st @ concat (map (chunk_events opts dat)
                              [Suc j ..< chunk_count (length dat) (chunkSize opts)]))"
    using Suc by (intro Suc.hyps(1)) simp
  finally show ?case using lt by (simp add: upt_conv_Cons)
qed

lemma processInChunks_pos:
  assumes c: "0 < chunkSize opts"
  shows "processInChunks opts dat processor =
     Some (Resolved (concat (map (\<lambda>k. processor (chunk_at dat (chunkSize opts) k))
                              [0 ..< chunk_count (length dat) (chunkSize opts)])),
           concat (map (chunk_events opts dat)
                              [0 ..< chunk_count (length dat) (chunkSize opts)]))"
  using processInChunks_loop_pos[OF c, of dat processor 0 "([], [])"]
  by (simp add: processInChunks_def)

lemma progress_reports_append:
  "progress_reports (xs @ ys) = progress_reports xs @ progress_reports ys"
  by (induction xs rule: progress_reports.induct) simp_all

lemma progress_reports_chunk_events:
  "onProgress opts \<Longrightarrow>
   progress_reports (concat (map (chunk_events opts dat) ks)) =
     map (\<lambda>k. (min (int k * chunkSize opts + chunkSize opts) (int (length dat)),
               int (length dat))) ks"
  by (induction ks) (simp_all add: progress_reports_append chunk_events_def)

lemma sorted_reports:
  assumes c: "0 < (c::int)"
  shows "sorted (map (\<lambda>k. min (int k * c + c) n) [0..<m])"
proof -
  have "sorted_wrt (<) [0..<m]" by simp
  moreover have "\<And>x y. x < y \<Longrightarrow> min (int x * c + c) n \<le> min (int y * c + c) n"
  proof -
    fix x y :: nat assume "x < y"
    then have "int x * c \<le> int y * c" using c by (simp add: mult_right_mono)
    then show "min (int x * c + c) n \<le> min (int y * c + c) n" by (simp add: min_def)
  qed
  ultimately have "sorted_wrt (\<lambda>x y. min (int x * c + c) n \<le> min (int y * c + c) n) [0..<m]"
    by (rule sorted_wrt_mono_rel[rotated]) blast
  then show ?thesis by (simp add: sorted_map)
qed

lemma last_report:
  assumes c: "0 < (c::int)" and ne: "0 < n"
  shows "min (int (chunk_count n c - 1) * c + c) (int n) = int n"
    and "0 < chunk_count n c"
proof -
  show pos: "0 < chunk_count n c"
    using chunk_index_less[OF c, of 0 n] ne by simp
  have "n \<le> chunk_count n c * nat c"
    using ceil_mult_ge[of "nat c" n] c by (simp add: chunk_count_def)
  then have "int n \<le> int (chunk_count n c) * c"
    using c by (metis int_nat_eq of_nat_le_iff of_nat_mult order_less_imp_le)
  moreover have "int (chunk_count n c - 1) * c + c = int (chunk_count n c) * c"
    using pos by (simp add: algebra_simps of_nat_diff)
  ultimately show "min (int (chunk_count n c - 1) * c + c) (int n) = int n" by simp
qed

lemma processInChunks_loop_returns_only_if:
  assumes "processInChunks_loop opts dat processor i st = Some y"
  shows "\<not> (chunkSize opts \<le> 0 \<and> i < int (length dat))"
proof (rule processInChunks_loop.raw_induct
    [where P = "\<lambda>opts dat processor i st y. \<not> (chunkSize opts \<le> 0 \<and> i < int (length dat))",
     OF _ assms], goal_cases)
  case (1 f opts dat processor i st y)
  show ?case
  proof
    assume a: "chunkSize opts \<le> 0 \<and> i < int (length dat)"
    with 1(2) have "f opts dat processor (i + chunkSize opts)
            (fst st @ processor (js_slice dat i (i + chunkSize opts)),
             snd st @
             [ChunkProcessed (js_slice dat i (i + chunkSize opts))] @
             (if onProgress opts
              then [ProgressReport
                     (min (i + chunkSize opts) (int (length dat)))
                     (int (length dat))]
              else []) @
             [Yielded (yieldInterval opts)]) = Some y" by simp
    from 1(1)[OF this] a show False by simp
  qed
qed

lemma processInChunks_never_returns:
  "chunkSize opts \<le> 0 \<Longrightarrow> dat \<noteq> [] \<Longrightarrow> processInChunks opts dat processor = None"
proof -
  assume c: "chunkSize opts \<le> 0" and d: "dat \<noteq> []"
  have "processInChunks_loop opts dat processor 0 ([], []) = None"
  proof (cases "processInChunks_loop opts dat processor 0 ([], [])")
    case None then show ?thesis .
  next
    case (Some y)
    from processInChunks_loop_returns_only_if[OF Some] c d show ?thesis by simp
  qed
  then show ?thesis by (simp add: processInChunks_def)
qed

text \<open>
  Claim C8. On the sequential path with a positive chunk size and a progress callback,
  the run returns, and its events are, chunk after chunk, the chunk handed to the
  processor, one call of the callback with \<open>(min (chunkStart + chunkSize) total, total)\<close>,
  and the pause. The processed counts reported are non-decreasing, and for non-empty data
  the last report is \<open>(total, total)\<close>. (For a chunk size that is not positive the loop
  does not end on non-empty data, see \<open>processInChunks_never_returns\<close>.)
\<close>
theorem processInChunks_progress:
  assumes c: "0 < chunkSize opts" and cb: "onProgress opts"
  shows "\<exists>res ev.
       processInChunks opts dat processor = Some (Resolved res, ev)
     \<and> ev = concat (map (\<lambda>k. [ChunkProcessed (chunk_at dat (chunkSize opts) k),
                               ProgressReport
                                 (min (int k * chunkSize opts + chunkSize opts)
                                      (int (length dat)))
                                 (int (length dat)),
                               Yielded (yieldInterval opts)])
                       [0 ..< chunk_count (length dat) (chunkSize opts)])
     \<and> progress_reports ev
         = map (\<lambda>k. (min (int k * chunkSize opts + chunkSize opts) (int (length dat)),
                     int (length dat)))
             [0 ..< chunk_count (length dat) (chunkSize opts)]
     \<and> sorted (map fst (progress_reports ev))
     \<and> (dat \<noteq> [] \<longrightarrow> progress_reports ev \<noteq> []
                     \<and> last (progress_reports ev) = (int (length dat), int (length dat)))"
proof -
  let ?m = "chunk_count (length dat) (chunkSize opts)"
  let ?ev = "concat (map (chunk_events opts dat) [0 ..< ?m])"
  let ?f = "\<lambda>k. (min (int k * chunkSize opts + chunkSize opts) (int (length dat)),
                     int (length dat))"
  have run: "processInChunks opts dat processor =
     Some (Resolved (concat (map (\<lambda>k. processor (chunk_at dat (chunkSize opts) k)) [0 ..< ?m])),
           ?ev)"
    by (rule processInChunks_pos[OF c])
  have ev: "?ev = concat (map (\<lambda>k. [ChunkProcessed (chunk_at dat (chunkSize opts) k),
                               ProgressReport
                                 (min (int k * chunkSize opts + chunkSize opts)
                                      (int (length dat)))
                                 (int (length dat)),
                               Yielded (yieldInterval opts)]) [0 ..< ?m])"
  proof -
    have "chunk_events opts dat = (\<lambda>k. [ChunkProcessed (chunk_at dat (chunkSize opts) k),
                               ProgressReport
                                 (min (int k * chunkSize opts + chunkSize opts)
                                      (int (length dat)))
                                 (int (length dat)),
                               Yielded (yieldInterval opts)])"
      using cb by (intro ext) (simp add: chunk_events_def)
    then show ?thesis by simp
  qed
  have rep: "progress_reports ?ev = map ?f [0 ..< ?m]"
    by (rule progress_reports_chunk_events[OF cb])
  have srt: "sorted (map fst (progress_reports ?ev))"
    using sorted_reports[OF c, of "int (length dat)" ?m] by (simp add: rep o_def)
  have lst: "progress_reports ?ev \<noteq> []
             \<and> last (progress_reports ?ev) = (int (length dat), int (length dat))"
    if "dat \<noteq> []"
  proof -
    from that have n: "0 < length dat" by simp
    have pos: "0 < ?m" by (rule last_report(2)[OF c n])
    then have ne: "[0 ..< ?m] \<noteq> []" by simp
    have "last (map ?f [0 ..< ?m]) = ?f (?m - 1)"
      using pos ne by (simp add: last_map last_upt)
    also have "\<dots> = (int (length dat), int (length dat))"
      using last_report(1)[OF c n] by simp
    finally show ?thesis using ne by (simp add: rep)
  qed
  show ?thesis
    apply (rule exI[of _ "concat (map (\<lambda>k. processor (chunk_at dat (chunkSize opts) k)) [0 ..< ?m])"])
    apply (rule exI[of _ ?ev])
    apply (intro conjI impI)
         apply (rule run)
        apply (rule ev)
       apply (rule rep)
      apply (rule srt)
     apply (simp add: lst)
    apply (simp add: lst)
    done
qed

theorem processInChunks_progress_witness:
  "\<exists>res ev.
     processInChunks (defaultOptions\<lparr>chunkSize := 2, onProgress := True\<rparr>) [1::nat, 2, 3, 4, 5]
       (map Suc) = Some (Resolved res, ev)
   \<and> progress_reports ev = [(2, 5), (4, 5), (5, 5)]
   \<and> sorted (map fst (progress_reports ev))
   \<and> last (progress_reports ev) = (5, 5)"
proof -
  let ?o = "defaultOptions\<lparr>chunkSize := 2, onProgress := True\<rparr>"
  have c: "0 < chunkSize ?o" by (simp add: defaultOptions_def)
  have cb: "onProgress ?o" by (simp add: defaultOptions_def)
  have m: "chunk_count (length [1::nat, 2, 3, 4, 5]) 2 = 3"
    by (simp add: chunk_count_def)
  have cs: "chunkSize ?o = 2" by (simp add: defaultOptions_def)
  have l: "map (\<lambda>k. (min (int k * 2 + 2) (int (length [1::nat, 2, 3, 4, 5])),
                     int (length [1::nat, 2, 3, 4, 5]))) [0 ..< 3] = [(2, 5), (4, 5), (5, 5)]"
    by (simp add: upt_conv_Cons)
  from processInChunks_progress[OF c cb, of "[1::nat, 2, 3, 4, 5]" "map Suc"]
  obtain res ev where run:
    "processInChunks ?o [1::nat, 2, 3, 4, 5] (map Suc) = Some (Resolved res, ev)"
    and rep: "progress_reports ev
         = map (\<lambda>k. (min (int k * chunkSize ?o + chunkSize ?o) (int (length [1::nat, 2, 3, 4, 5])),
                     int (length [1::nat, 2, 3, 4, 5])))
             [0 ..< chunk_count (length [1::nat, 2, 3, 4, 5]) (chunkSize ?o)]"
    and srt: "sorted (map fst (progress_reports ev))"
    and lst: "[1::nat, 2, 3, 4, 5] \<noteq> [] \<longrightarrow> progress_reports ev \<noteq> []
         \<and> last (progress_reports ev)
           = (int (length [1::nat, 2, 3, 4, 5]), int (length [1::nat, 2, 3, 4, 5]))"
    by blast
  from rep have rep': "progress_reports ev = [(2, 5), (4, 5), (5, 5)]"
    unfolding cs m l .
  from lst have lst': "last (progress_reports ev) = (5, 5)" by simp
  from run rep' srt lst' show ?thesis by blast
qed

lemma worker_processData_loop_pos:
  assumes c: "0 < c"
  shows "worker_processData_loop dat c (int j * c) posted =
     Some (posted
           @ concat (map (\<lambda>k. [ResultMsg (map mark_processed (chunk_at dat c k)),
                                 ProgressMsg (min (int k * c + c) (int (length dat)))
                                   (int (length dat))])
                      [j ..< chunk_count (length dat) c])
           @ [CompleteMsg])"
proof (induction "chunk_count (length dat) c - j" arbitrary: j posted)
  case 0
  then have "\<not> j < chunk_count (length dat) c" by simp
  then have "\<not> int j * c < int (length dat)"
    using chunk_index_less[OF c] by blast
  then show ?case using 0 by (subst worker_processData_loop.simps) simp
next
  case (Suc d)
  then have lt: "j < chunk_count (length dat) c" by simp
  then have i: "int j * c < int (length dat)"
    using chunk_index_less[OF c] by blast
  have nxt: "int j * c + c = int (Suc j) * c"
    by (simp add: algebra_simps)
  let ?p = "posted @ [ResultMsg (map mark_processed (chunk_at dat c j)),
                      ProgressMsg (min (int (Suc j) * c) (int (length dat))) (int (length dat))]"
  have "worker_processData_loop dat c (int j * c) posted =
        worker_processData_loop dat c (int (Suc j) * c) ?p"
    apply (subst worker_processData_loop.simps)
    apply (simp only: i if_True js_slice_chunk_at[OF c])
    apply (simp only: nxt)
    done
  also have "\<dots> = Some (?p
           @ concat (map (\<lambda>k. [ResultMsg (map mark_processed (chunk_at dat c k)),
                                 ProgressMsg (min (int k * c + c) (int (length dat)))
                                   (int (length dat))])
                      [Suc j ..< chunk_count (length dat) c])
           @ [CompleteMsg])"
    using Suc by (intro Suc.hyps(1)) simp
  finally show ?case using lt by (simp add: upt_conv_Cons nxt)
qed

lemma foldl_onmessage_chunks:
  "foldl (onmessage opts) st
     (concat (map (\<lambda>k. [ResultMsg (f k), ProgressMsg (g k) n]) ks))
   = st\<lparr>results := results st @ concat (map f ks),
        reports := reports st @ (if onProgress opts then map (\<lambda>k. ProgressReport (g k) n) ks
                                 else [])\<rparr>"
  by (induction ks arbitrary: st) simp_all

lemma concat_chunk_at:
  "0 < c \<Longrightarrow> concat (map (chunk_at dat c) [0 ..< chunk_count (length dat) c]) = dat"
proof -
  assume c: "0 < c"
  have "length dat \<le> chunk_count (length dat) c * nat c"
    using ceil_mult_ge[of "nat c" "length dat"] c by (simp add: chunk_count_def)
  moreover have "chunk_at dat c = (\<lambda>k. take (nat c) (drop (k * nat c) dat))"
    by (intro ext) (simp add: chunk_at_def)
  ultimately show ?thesis
    using concat_chunks_take[of "nat c" dat "chunk_count (length dat) c"] c by simp
qed

lemma processWithWebWorker_pos:
  assumes c: "0 < chunkSize opts"
  shows "processWithWebWorker opts dat processor =
     Some (Resolved (map mark_processed dat),
           (if onProgress opts
            then map (\<lambda>k. ProgressReport
                            (min (int k * chunkSize opts + chunkSize opts) (int (length dat)))
                            (int (length dat)))
                   [0 ..< chunk_count (length dat) (chunkSize opts)]
            else []))"
proof -
  let ?m = "chunk_count (length dat) (chunkSize opts)"
  have w: "worker_processData dat (chunkSize opts) =
     Some (concat (map (\<lambda>k. [ResultMsg (map mark_processed (chunk_at dat (chunkSize opts) k)),
                                 ProgressMsg (min (int k * chunkSize opts + chunkSize opts)
                                                  (int (length dat)))
                                   (int (length dat))])
                      [0 ..< ?m])
           @ [CompleteMsg])"
    using worker_processData_loop_pos[OF c, of dat 0 "[]"]
    by (simp add: worker_processData_def)
  have "concat (map (\<lambda>k. map mark_processed (chunk_at dat (chunkSize opts) k)) [0 ..< ?m])
        = map mark_processed (concat (map (chunk_at dat (chunkSize opts)) [0 ..< ?m]))"
    by (simp add: map_concat o_def)
  then have r: "concat (map (\<lambda>k. map mark_processed (chunk_at dat (chunkSize opts) k)) [0 ..< ?m])
        = map mark_processed dat"
    by (simp only: concat_chunk_at[OF c])
  show ?thesis
    by (simp add: processWithWebWorker_def w foldl_onmessage_chunks r Let_def)
qed

text \<open>
  Claim C1 says that the worker path and the sequential path give the same results. The
  worker path never applies the processor: the worker script copies each row and sets
  \<open>processed\<close>. With the default options, a host that has \<open>Worker\<close>, 10001 equal rows
  and a processor that rejects every row, \<open>processData\<close> takes the worker path and
  resolves with the 10001 rows, each marked \<open>processed\<close>, while the sequential path
  resolves with no row.
\<close>
theorem processData_worker_path_diverges:
  "processData defaultOptions True (replicate 10001 sample_item) reject_all
     = Some (Resolved (replicate 10001
                [(''phone'', JStr ''+12025550123''), (''processed'', JBool True)]), [])
   \<and> map_option fst (processInChunks defaultOptions (replicate 10001 sample_item) reject_all)
     = Some (Resolved [])"
proof -
  have c: "0 < chunkSize defaultOptions" by (simp add: defaultOptions_def)
  have m: "mark_processed sample_item
      = [(''phone'', JStr ''+12025550123''), (''processed'', JBool True)]"
    by (simp add: mark_processed_def sample_item_def)
  have w: "processData defaultOptions True (replicate 10001 sample_item) reject_all
     = processWithWebWorker defaultOptions (replicate 10001 sample_item) reject_all"
    by (simp add: processData_def defaultOptions_def)
  have np: "\<not> onProgress defaultOptions" by (simp add: defaultOptions_def)
  have one: "processData defaultOptions True (replicate 10001 sample_item) reject_all
     = Some (Resolved (replicate 10001
                [(''phone'', JStr ''+12025550123''), (''processed'', JBool True)]), [])"
    unfolding w processWithWebWorker_pos[OF c] using np by (simp add: m)
  have two: "map_option fst
       (processInChunks defaultOptions (replicate 10001 sample_item) reject_all)
     = Some (Resolved [])"
    unfolding processInChunks_pos[OF c] by (simp add: reject_all_def)
  from one two show ?thesis by (rule conjI)
qed

end
